theory Spec2Isabelle
  imports Main
begin

section \<open>The triangle puzzle solver of megakolmio.c\<close>

text \<open>
  The development embeds \<^verbatim>\<open>src/megakolmio.c\<close>. The C++ rendering \<^verbatim>\<open>src/megakolmio.cpp\<close>
  has the same functions line by line, except for the neighbour table: there it is an
  \<^verbatim>\<open>unordered_map\<close> from two-digit keys to the common edge, read with \<^verbatim>\<open>operator[]\<close>, so a
  pair outside the table yields edge 0 where the C function \<^verbatim>\<open>getCommonEdge\<close> prints a
  diagnostic and leaves the process. Statements about pairs outside the table are about the
  C function.

  Conventions of the embedding:
  \<^item> \<^verbatim>\<open>sint\<close> is \<^verbatim>\<open>unsigned char\<close>: a natural number below 256. C computes in
    \<^verbatim>\<open>int\<close> and truncates on assignment, so the reduction modulo 256 is written where a
    value is stored back into a \<^verbatim>\<open>sint\<close> after an increment or a decrement.
  \<^item> A \<^verbatim>\<open>const Card*\<close> is \<open>None\<close> for \<^verbatim>\<open>NULL\<close> and \<open>Some i\<close> for \<^verbatim>\<open>&Deck[i]\<close>; cards
    are compared by this pointer, never by their labels.
  \<^item> A \<^verbatim>\<open>PlayedCard*\<close> slot of the board is \<open>None\<close> for \<^verbatim>\<open>NULL\<close> and \<open>Some pc\<close> for a
    placement owned by that board.
  \<^item> A call either returns, or prints a text and calls \<^verbatim>\<open>exit(0)\<close>, or runs into
    undefined behaviour (a \<^verbatim>\<open>NULL\<close> dereference or an index outside an array).
\<close>

subsection \<open>Static tables\<close>

type_synonym sint = nat

datatype 'a result = Return 'a | Exit string | Fault

definition NMAP_SIZE :: nat where "NMAP_SIZE = 9"
definition NMAP_FIRST :: nat where "NMAP_FIRST = 0"
definition NMAP_SECOND :: nat where "NMAP_SECOND = 1"
definition NMAP_COMMON_EDGE :: nat where "NMAP_COMMON_EDGE = 2"

definition NEIGHBORMAP :: "sint list list" where
  "NEIGHBORMAP =
    [[0, 1, 0],
     [0, 2, 1],
     [0, 6, 2],
     [1, 5, 2],
     [2, 3, 2],
     [3, 4, 0],
     [3, 7, 1],
     [4, 5, 1],
     [5, 8, 0]]"

definition PRINTORDER :: "sint list" where
  "PRINTORDER = [6, 2, 0, 1, 7, 3, 4, 5, 8]"

definition CARD_NAME_LEN :: nat where "CARD_NAME_LEN = 2"
definition EDGES_IN_CARD :: nat where "EDGES_IN_CARD = 3"

record Card =
  name :: string
  edges :: "string list"

definition Deck :: "Card list" where
  "Deck =
    [\<lparr>name = ''P1'', edges = [''FH'', ''FB'', ''DH'']\<rparr>,
     \<lparr>name = ''P2'', edges = [''DH'', ''FB'', ''RB'']\<rparr>,
     \<lparr>name = ''P3'', edges = [''DH'', ''FB'', ''FH'']\<rparr>,
     \<lparr>name = ''P4'', edges = [''DH'', ''DB'', ''FB'']\<rparr>,
     \<lparr>name = ''P5'', edges = [''DH'', ''RB'', ''DB'']\<rparr>,
     \<lparr>name = ''P6'', edges = [''RB'', ''FB'', ''RH'']\<rparr>,
     \<lparr>name = ''P7'', edges = [''FB'', ''RH'', ''FH'']\<rparr>,
     \<lparr>name = ''P8'', edges = [''RH'', ''DH'', ''RB'']\<rparr>,
     \<lparr>name = ''P9'', edges = [''FB'', ''DB'', ''DH'']\<rparr>]"

definition CARDS_IN_DECK :: nat where "CARDS_IN_DECK = length Deck"

subsection \<open>Placements\<close>

record PlayedCard =
  rotation :: sint
  position :: sint
  card_ptr :: "nat option"

text \<open>
  \<^verbatim>\<open>getCommonEdge\<close> walks the rows of the table in order; when no row fits it prints the
  diagnostic and calls \<^verbatim>\<open>exit(0)\<close>.
\<close>

fun getCommonEdge_rows :: "sint list list \<Rightarrow> PlayedCard \<Rightarrow> PlayedCard \<Rightarrow> sint result" where
  "getCommonEdge_rows [] this other = Exit ''[+] ERROR: getCommonEdge(): not neighbors''"
| "getCommonEdge_rows (row # rows) this other =
     (if row ! NMAP_FIRST = position this \<and> row ! NMAP_SECOND = position other
      then Return (row ! NMAP_COMMON_EDGE)
      else getCommonEdge_rows rows this other)"

definition getCommonEdge :: "PlayedCard \<Rightarrow> PlayedCard \<Rightarrow> sint result" where
  "getCommonEdge this other = getCommonEdge_rows (take NMAP_SIZE NEIGHBORMAP) this other"

text \<open>
  \<^verbatim>\<open>matchesNeighbor\<close> tests \<^verbatim>\<open>this->card\<close> against \<^verbatim>\<open>NULL\<close>, looks the common edge up, and
  reads \<^verbatim>\<open>this->card->edges\<close> and \<^verbatim>\<open>other->card->edges\<close>; the sum of edge and rotation
  is an \<^verbatim>\<open>int\<close>, so it does not wrap before the remainder is taken.
\<close>

definition matchesNeighbor :: "PlayedCard \<Rightarrow> PlayedCard \<Rightarrow> bool result" where
  "matchesNeighbor this other =
     (case card_ptr this of
        None \<Rightarrow> Return False
      | Some a \<Rightarrow>
         (case getCommonEdge this other of
            Exit txt \<Rightarrow> Exit txt
          | Fault \<Rightarrow> Fault
          | Return common_edge \<Rightarrow>
             (let own_rotated_common_edge = (common_edge + rotation this) mod EDGES_IN_CARD;
                  other_rotated_common_edge = (common_edge + rotation other) mod EDGES_IN_CARD
              in if a < CARDS_IN_DECK
                 then (case card_ptr other of
                         None \<Rightarrow> Fault
                       | Some b \<Rightarrow>
                          if b < CARDS_IN_DECK
                          then (let e1 = edges (Deck ! a) ! own_rotated_common_edge;
                                    e2 = edges (Deck ! b) ! other_rotated_common_edge
                                in Return (e1 ! 0 = e2 ! 0 \<and> e1 ! 1 \<noteq> e2 ! 1))
                          else Fault)
                 else Fault)))"

text \<open>\<^verbatim>\<open>rotate\<close> returns its flag together with the placement it may have written to.\<close>

definition rotate_card :: "PlayedCard \<Rightarrow> bool \<times> PlayedCard" where
  "rotate_card this =
     (if rotation this \<ge> 2 then (False, this)
      else (True, this\<lparr>rotation := (rotation this + 1) mod 256\<rparr>))"

subsection \<open>Board states\<close>

record GameState =
  nextOnBoard :: sint
  topOfTheDeck :: sint
  cardsOnBoard :: "PlayedCard option list"

text \<open>
  \<^verbatim>\<open>calloc\<close> gives a state with all nine slots \<^verbatim>\<open>NULL\<close> and both counters zero; this is
  the state \<^verbatim>\<open>main\<close> starts from.
\<close>

definition empty_state :: GameState where
  "empty_state =
     \<lparr>nextOnBoard = 0, topOfTheDeck = 0, cardsOnBoard = List.replicate CARDS_IN_DECK None\<rparr>"

text \<open>
  \<^verbatim>\<open>replicate\<close> copies the two counters and the placements up to the first \<^verbatim>\<open>NULL\<close> slot;
  the slots from there on stay \<^verbatim>\<open>NULL\<close>, as \<^verbatim>\<open>calloc\<close> left them.
\<close>

definition replicate_state :: "GameState \<Rightarrow> GameState" where
  "replicate_state this =
     (let copied = takeWhile (\<lambda>slot. slot \<noteq> None) (take CARDS_IN_DECK (cardsOnBoard this))
      in \<lparr>nextOnBoard = nextOnBoard this,
          topOfTheDeck = topOfTheDeck this,
          cardsOnBoard = copied @ List.replicate (CARDS_IN_DECK - length copied) None\<rparr>)"

fun isSolved_rows :: "sint list list \<Rightarrow> GameState \<Rightarrow> bool \<Rightarrow> bool result" where
  "isSolved_rows [] this partial = Return True"
| "isSolved_rows (row # rows) this partial =
     (case cardsOnBoard this ! (row ! NMAP_FIRST) of
        None \<Rightarrow> if partial then isSolved_rows rows this partial else Return False
      | Some c1 \<Rightarrow>
         (case cardsOnBoard this ! (row ! NMAP_SECOND) of
            None \<Rightarrow> if partial then isSolved_rows rows this partial else Return False
          | Some c2 \<Rightarrow>
             (case matchesNeighbor c1 c2 of
                Exit txt \<Rightarrow> Exit txt
              | Fault \<Rightarrow> Fault
              | Return matches \<Rightarrow>
                 if \<not> matches then Return False else isSolved_rows rows this partial)))"

definition isSolved :: "GameState \<Rightarrow> bool \<Rightarrow> bool result" where
  "isSolved this partial = isSolved_rows (take NMAP_SIZE NEIGHBORMAP) this partial"

text \<open>
  \<^verbatim>\<open>output\<close> prints the names in print order. Reading the name of a slot that is \<^verbatim>\<open>NULL\<close>, or
  of a placement without a card, is a \<^verbatim>\<open>NULL\<close> dereference. The printed name is the
  two-character catalog name.
\<close>

definition output_name :: "GameState \<Rightarrow> sint \<Rightarrow> string result" where
  "output_name this i =
     (case cardsOnBoard this ! (PRINTORDER ! i) of
        None \<Rightarrow> Fault
      | Some pc \<Rightarrow>
         (case card_ptr pc of
            None \<Rightarrow> Fault
          | Some a \<Rightarrow>
             if a < CARDS_IN_DECK
             then Return (name (Deck ! a) @ (if i < CARDS_IN_DECK - 1 then '','' else []))
             else Fault))"

fun output_loop :: "GameState \<Rightarrow> sint list \<Rightarrow> string result" where
  "output_loop this [] = Return []"
| "output_loop this (i # rest) =
     (case output_name this i of
        Return txt \<Rightarrow>
         (case output_loop this rest of
            Return txt1 \<Rightarrow> Return (txt @ txt1)
          | Exit txt1 \<Rightarrow> Exit (txt @ txt1)
          | Fault \<Rightarrow> Fault)
      | Exit txt \<Rightarrow> Exit txt
      | Fault \<Rightarrow> Fault)"

definition output_state :: "GameState \<Rightarrow> string result" where
  "output_state this =
     (case output_loop this [0..<CARDS_IN_DECK] of
        Return txt \<Rightarrow> Return (''['' @ txt @ '']'' @ [CHR 10])
      | Exit txt \<Rightarrow> Exit (''['' @ txt)
      | Fault \<Rightarrow> Fault)"

definition isCardOnBoard :: "GameState \<Rightarrow> nat option \<Rightarrow> bool" where
  "isCardOnBoard this val =
     list_ex (\<lambda>slot. case slot of
                       None \<Rightarrow> False
                     | Some pc \<Rightarrow> card_ptr pc \<noteq> None \<and> card_ptr pc = val)
       (take CARDS_IN_DECK (cardsOnBoard this))"

text \<open>
  \<^verbatim>\<open>nextFromDeck\<close> returns the card it found and the state with the cursor it wrote.
\<close>

fun nextFromDeck_loop :: "sint list \<Rightarrow> GameState \<Rightarrow> nat option \<times> GameState" where
  "nextFromDeck_loop [] this = (None, this)"
| "nextFromDeck_loop (i # rest) this =
     (if \<not> isCardOnBoard this (Some i) then (Some i, this\<lparr>topOfTheDeck := i\<rparr>)
      else nextFromDeck_loop rest this)"

definition nextFromDeck :: "GameState \<Rightarrow> nat option \<times> GameState" where
  "nextFromDeck this =
     (if topOfTheDeck this \<ge> CARDS_IN_DECK then (None, this)
      else nextFromDeck_loop [topOfTheDeck this..<CARDS_IN_DECK] this)"

text \<open>
  \<^verbatim>\<open>addNewCard\<close> stores the new placement at index \<^verbatim>\<open>nextOnBoard\<close>; an index of 9 or more is
  outside the array.
\<close>

definition addNewCard :: "GameState \<Rightarrow> (bool \<times> GameState) result" where
  "addNewCard this =
     (case nextFromDeck this of
        (None, this1) \<Rightarrow> Return (False, this1)
      | (Some fromdeck, this1) \<Rightarrow>
         (let newcard = \<lparr>rotation = 0, position = nextOnBoard this1, card_ptr = Some fromdeck\<rparr>
          in if position newcard < CARDS_IN_DECK
             then Return (True,
                    this1\<lparr>cardsOnBoard := (cardsOnBoard this1)[position newcard := Some newcard],
                          nextOnBoard := (nextOnBoard this1 + 1) mod 256\<rparr>)
             else Fault))"

text \<open>
  The \<^verbatim>\<open>PlayedCard*\<close> handed to \<^verbatim>\<open>replaceCard\<close> points into the board of the fresh copy; it
  is represented by the index of its slot.
\<close>

definition replaceCard :: "GameState \<Rightarrow> sint \<Rightarrow> bool \<times> GameState" where
  "replaceCard this slot =
     (case nextFromDeck this of
        (None, this1) \<Rightarrow> (False, this1)
      | (Some fromdeck, this1) \<Rightarrow>
         (True, this1\<lparr>cardsOnBoard :=
                  (cardsOnBoard this1)[slot :=
                     map_option (\<lambda>pc. pc\<lparr>card_ptr := Some fromdeck, rotation := 0\<rparr>)
                       (cardsOnBoard this1 ! slot)]\<rparr>))"

text \<open>
  \<^verbatim>\<open>getLastAdded\<close> reads index \<^verbatim>\<open>nextOnBoard - 1\<close> as a \<^verbatim>\<open>sint\<close>: for \<^verbatim>\<open>nextOnBoard = 0\<close> this is
  255, outside the array.
\<close>

definition getLastAdded :: "GameState \<Rightarrow> (sint \<times> PlayedCard option) result" where
  "getLastAdded this =
     (let last = (nextOnBoard this + 255) mod 256
      in if last < CARDS_IN_DECK then Return (last, cardsOnBoard this ! last) else Fault)"

text \<open>
  \<^verbatim>\<open>first\<close> and \<^verbatim>\<open>next\<close> return \<open>None\<close> for \<^verbatim>\<open>NULL\<close>. In \<^verbatim>\<open>next\<close>, a \<^verbatim>\<open>NULL\<close> last placement
  is dereferenced by \<^verbatim>\<open>rotate\<close>.
\<close>

definition first_state :: "GameState \<Rightarrow> GameState option result" where
  "first_state this =
     (let newstate = (replicate_state this)\<lparr>topOfTheDeck := 0\<rparr>
      in case addNewCard newstate of
           Return (True, newstate1) \<Rightarrow> Return (Some newstate1)
         | Return (False, newstate1) \<Rightarrow> Return None
         | Exit txt \<Rightarrow> Exit txt
         | Fault \<Rightarrow> Fault)"

definition next_state :: "GameState \<Rightarrow> GameState option result" where
  "next_state this =
     (let newstate = replicate_state this
      in case getLastAdded newstate of
           Return (slot, Some pc) \<Rightarrow>
            (case rotate_card pc of
               (True, pc1) \<Rightarrow>
                Return (Some (newstate\<lparr>cardsOnBoard := (cardsOnBoard newstate)[slot := Some pc1]\<rparr>))
             | (False, pc1) \<Rightarrow>
                (case replaceCard (newstate\<lparr>cardsOnBoard := (cardsOnBoard newstate)[slot := Some pc1]\<rparr>)
                        slot of
                   (True, newstate1) \<Rightarrow> Return (Some newstate1)
                 | (False, newstate1) \<Rightarrow> Return None))
         | Return (slot, None) \<Rightarrow> Fault
         | Exit txt \<Rightarrow> Exit txt
         | Fault \<Rightarrow> Fault)"

subsection \<open>The search\<close>

text \<open>
  \<^verbatim>\<open>solve\<close> recurses inside its \<^verbatim>\<open>while\<close> loop. Both are given a bound on the number of
  nested calls and loop rounds; \<open>None\<close> means that the bound was reached before the call
  returned. A run that returns yields the text it printed: \<open>Return\<close> when \<^verbatim>\<open>solve\<close> came
  back to its caller, \<open>Exit\<close> when the process left through \<^verbatim>\<open>exit(0)\<close>.
\<close>

fun solve :: "nat \<Rightarrow> GameState \<Rightarrow> string result option"
  and solve_loop :: "nat \<Rightarrow> GameState option \<Rightarrow> string result option" where
  "solve 0 game = None"
| "solve (Suc n) game =
     (case isSolved game True of
        Exit txt \<Rightarrow> Some (Exit txt)
      | Fault \<Rightarrow> Some Fault
      | Return False \<Rightarrow> Some (Return [])
      | Return True \<Rightarrow>
         (case isSolved game False of
            Exit txt \<Rightarrow> Some (Exit txt)
          | Fault \<Rightarrow> Some Fault
          | Return solved \<Rightarrow>
             (case (if solved then output_state game else Return []) of
                Exit txt \<Rightarrow> Some (Exit txt)
              | Fault \<Rightarrow> Some Fault
              | Return line \<Rightarrow>
                 (case first_state game of
                    Exit txt \<Rightarrow> Some (Exit (line @ txt))
                  | Fault \<Rightarrow> Some Fault
                  | Return newstate \<Rightarrow>
                     (case solve_loop n newstate of
                        None \<Rightarrow> None
                      | Some (Return txt) \<Rightarrow> Some (Return (line @ txt))
                      | Some (Exit txt) \<Rightarrow> Some (Exit (line @ txt))
                      | Some Fault \<Rightarrow> Some Fault)))))"
| "solve_loop 0 newstate = None"
| "solve_loop (Suc n) None = Some (Return [])"
| "solve_loop (Suc n) (Some newstate) =
     (case solve n newstate of
        None \<Rightarrow> None
      | Some (Exit txt) \<Rightarrow> Some (Exit txt)
      | Some Fault \<Rightarrow> Some Fault
      | Some (Return txt) \<Rightarrow>
         (case next_state newstate of
            Exit txt1 \<Rightarrow> Some (Exit (txt @ txt1))
          | Fault \<Rightarrow> Some Fault
          | Return newstate1 \<Rightarrow>
             (case solve_loop n newstate1 of
                None \<Rightarrow> None
              | Some (Return txt1) \<Rightarrow> Some (Return (txt @ txt1))
              | Some (Exit txt1) \<Rightarrow> Some (Exit (txt @ txt1))
              | Some Fault \<Rightarrow> Some Fault)))"

section \<open>Vocabulary of the statements\<close>

subsection \<open>Reachable states and the shape of their boards\<close>

text \<open>
  The states that \<^verbatim>\<open>first\<close> and \<^verbatim>\<open>next\<close> produce from the empty board.
\<close>

inductive reachable :: "GameState \<Rightarrow> bool" where
  reachable_empty: "reachable empty_state"
| reachable_first: "reachable s \<Longrightarrow> first_state s = Return (Some t) \<Longrightarrow> reachable t"
| reachable_next: "reachable s \<Longrightarrow> next_state s = Return (Some t) \<Longrightarrow> reachable t"

text \<open>
  A board whose filled slots are a prefix is determined by the list of its placements:
  \<open>board_of\<close> pads the list with \<^verbatim>\<open>NULL\<close> slots, \<open>placed\<close> reads the list back. \<open>wf_cards\<close>
  collects what holds of the placements of a reachable state: at most nine of them, the
  placement in slot \<open>i\<close> has position \<open>i\<close>, rotations are at most 2, every placement holds a
  catalog card, no card is held twice, and the cursor is the catalog index of the card
  placed last.
\<close>

definition board_of :: "PlayedCard list \<Rightarrow> PlayedCard option list" where
  "board_of pcs = map Some pcs @ List.replicate (CARDS_IN_DECK - length pcs) None"

definition mk_state :: "PlayedCard list \<Rightarrow> sint \<Rightarrow> GameState" where
  "mk_state pcs cur = \<lparr>nextOnBoard = length pcs, topOfTheDeck = cur, cardsOnBoard = board_of pcs\<rparr>"

definition placed :: "GameState \<Rightarrow> PlayedCard list" where
  "placed s = map the (take (nextOnBoard s) (cardsOnBoard s))"

definition holds_card :: "PlayedCard \<Rightarrow> bool" where
  "holds_card pc = (case card_ptr pc of None \<Rightarrow> False | Some c \<Rightarrow> c < CARDS_IN_DECK)"

definition wf_cards :: "PlayedCard list \<Rightarrow> sint \<Rightarrow> bool" where
  "wf_cards pcs cur \<longleftrightarrow>
     length pcs \<le> CARDS_IN_DECK \<and>
     map position pcs = [0..<length pcs] \<and>
     list_all (\<lambda>pc. rotation pc \<le> 2 \<and> holds_card pc) pcs \<and>
     distinct (map card_ptr pcs) \<and>
     (pcs = [] \<or> card_ptr (last pcs) = Some cur)"

definition wf_state :: "GameState \<Rightarrow> bool" where
  "wf_state s \<longleftrightarrow>
     wf_cards (placed s) (topOfTheDeck s) \<and> s = mk_state (placed s) (topOfTheDeck s)"

text \<open>The first catalog index from \<open>cur\<close> on that no placement of the list holds.\<close>

definition unused :: "PlayedCard list \<Rightarrow> sint \<Rightarrow> nat option" where
  "unused pcs cur = List.find (\<lambda>i. Some i \<notin> set (map card_ptr pcs)) [cur..<CARDS_IN_DECK]"

text \<open>
  The rank that every \<^verbatim>\<open>next\<close> lowers: three rotations for each catalog card from the cursor
  on, less the rotations already used by the last placement.
\<close>

definition chain_rank :: "GameState \<Rightarrow> nat" where
  "chain_rank s = 3 * (CARDS_IN_DECK - topOfTheDeck s) - rotation (last (placed s))"

subsection \<open>Solution lines\<close>

text \<open>
  The output contract in the words of the specification: a line is an opening bracket, the
  names of the nine cards in print order separated by commas, a closing bracket and a
  newline.
\<close>

fun join_commas :: "string list \<Rightarrow> string" where
  "join_commas [] = []"
| "join_commas [x] = x"
| "join_commas (x # y # zs) = x @ '','' @ join_commas (y # zs)"

definition card_name_at :: "GameState \<Rightarrow> nat \<Rightarrow> string" where
  "card_name_at s i =
     (case cardsOnBoard s ! i of
        None \<Rightarrow> []
      | Some pc \<Rightarrow> (case card_ptr pc of None \<Rightarrow> [] | Some a \<Rightarrow> name (Deck ! a)))"

definition printed_names :: "GameState \<Rightarrow> string list" where
  "printed_names s = map (card_name_at s) PRINTORDER"

definition solution_line :: "GameState \<Rightarrow> string" where
  "solution_line s = ''['' @ join_commas (printed_names s) @ '']'' @ [CHR 10]"

text \<open>
  A solution is a board of the reachable shape that passes the full check. A run is sound
  when it returned and printed the lines of a list of solutions, one after the other.
\<close>

definition solution :: "GameState \<Rightarrow> bool" where
  "solution b \<longleftrightarrow> wf_state b \<and> isSolved b False = Return True"

definition sound :: "string result \<Rightarrow> bool" where
  "sound r \<longleftrightarrow>
     (\<exists>boards. r = Return (concat (map solution_line boards)) \<and> list_all solution boards)"

subsection \<open>Consistency by the labels\<close>

text \<open>
  The consistency of a board in the words of the specification, read off the catalog and
  the table without any call of \<^verbatim>\<open>isSolved\<close> or \<^verbatim>\<open>matchesNeighbor\<close>. \<open>edge_label s i c\<close> is the
  label that the card in slot \<open>i\<close> shows at edge \<open>c\<close> under its rotation, if the slot holds a
  catalog card. Two labels fit when they agree in their first character and differ in
  their second. A board is consistent for a list of rows when, for every row \<open>[a, b, c]\<close>,
  the slots \<open>a\<close> and \<open>b\<close> both hold a card and their labels at edge \<open>c\<close> fit.
\<close>

definition edge_label :: "GameState \<Rightarrow> nat \<Rightarrow> nat \<Rightarrow> string option" where
  "edge_label s i c =
     (case cardsOnBoard s ! i of
        None \<Rightarrow> None
      | Some pc \<Rightarrow>
         (case card_ptr pc of
            None \<Rightarrow> None
          | Some a \<Rightarrow>
             if a < CARDS_IN_DECK
             then Some (edges (Deck ! a) ! ((c + rotation pc) mod EDGES_IN_CARD))
             else None))"

fun labels_fit :: "string option \<Rightarrow> string option \<Rightarrow> bool" where
  "labels_fit (Some e1) (Some e2) \<longleftrightarrow> e1 ! 0 = e2 ! 0 \<and> e1 ! 1 \<noteq> e2 ! 1"
| "labels_fit x y \<longleftrightarrow> False"

definition consistent_rows :: "sint list list \<Rightarrow> GameState \<Rightarrow> bool" where
  "consistent_rows rows s \<longleftrightarrow>
     list_all (\<lambda>row. labels_fit (edge_label s (row ! 0) (row ! 2))
                               (edge_label s (row ! 1) (row ! 2))) rows"

subsection \<open>Walking down the search tree\<close>

text \<open>
  \<open>advance k\<close> applies \<^verbatim>\<open>next\<close> \<open>k\<close> times; \<open>descend k\<close> goes from a board that passes the
  partial check to the \<open>k\<close>-th sibling of its first child; \<open>follow\<close> does so level after
  level. \<open>emits s\<close> says that a run of \<^verbatim>\<open>solve\<close> on \<open>s\<close> that returns has printed something.
\<close>

fun advance :: "nat \<Rightarrow> GameState \<Rightarrow> GameState option" where
  "advance 0 t = Some t"
| "advance (Suc k) t = (case next_state t of Return (Some t1) \<Rightarrow> advance k t1 | _ \<Rightarrow> None)"

definition descend :: "nat \<Rightarrow> GameState \<Rightarrow> GameState option" where
  "descend k s =
     (if isSolved s True = Return True
      then (case first_state s of Return (Some t) \<Rightarrow> advance k t | _ \<Rightarrow> None)
      else None)"

fun follow :: "nat list \<Rightarrow> GameState \<Rightarrow> GameState option" where
  "follow [] s = Some s"
| "follow (k # ks) s = (case descend k s of None \<Rightarrow> None | Some u \<Rightarrow> follow ks u)"

definition emits :: "GameState \<Rightarrow> bool" where
  "emits s \<longleftrightarrow> (\<forall>n out. solve n s = Some (Return out) \<longrightarrow> out \<noteq> [])"

section \<open>The same transitions on a store\<close>

text \<open>
  In the C program a board state is a \<^verbatim>\<open>GameState\<close> object whose slots point to
  \<^verbatim>\<open>PlayedCard\<close> objects, all of them allocated with \<^verbatim>\<open>malloc\<close> or \<^verbatim>\<open>calloc\<close> and released with
  \<^verbatim>\<open>free\<close>. To speak about what a call writes, the transitions are given a second time on
  an explicit store: a map from addresses to \<^verbatim>\<open>PlayedCard\<close> objects, a map from addresses to
  \<^verbatim>\<open>GameState\<close> objects, and the next address the allocator hands out. Addresses are never
  handed out twice. Reading or freeing an address that holds no object is undefined
  behaviour.
\<close>

type_synonym addr = nat

record GameStateObj =
  obj_nextOnBoard :: sint
  obj_topOfTheDeck :: sint
  obj_cardsOnBoard :: "addr option list"

record heap =
  played :: "addr \<Rightarrow> PlayedCard option"
  states :: "addr \<Rightarrow> GameStateObj option"
  next_free :: addr

text \<open>
  \<^verbatim>\<open>malloc\<close> followed by the initialisation of every field, and \<^verbatim>\<open>calloc\<close> of a
  \<^verbatim>\<open>GameState\<close>.
\<close>

definition alloc_card :: "heap \<Rightarrow> PlayedCard \<Rightarrow> heap \<times> addr" where
  "alloc_card h pc =
     (h\<lparr>played := (played h)(next_free h \<mapsto> pc), next_free := next_free h + 1\<rparr>, next_free h)"

definition alloc_state :: "heap \<Rightarrow> heap \<times> addr" where
  "alloc_state h =
     (h\<lparr>states := (states h)(next_free h \<mapsto>
            \<lparr>obj_nextOnBoard = 0, obj_topOfTheDeck = 0,
             obj_cardsOnBoard = List.replicate CARDS_IN_DECK None\<rparr>),
        next_free := next_free h + 1\<rparr>,
      next_free h)"

text \<open>Assignments through a \<^verbatim>\<open>GameState*\<close> and through a \<^verbatim>\<open>PlayedCard*\<close>.\<close>

definition write_state :: "heap \<Rightarrow> addr \<Rightarrow> (GameStateObj \<Rightarrow> GameStateObj) \<Rightarrow> heap result" where
  "write_state h a f =
     (case states h a of
        None \<Rightarrow> Fault
      | Some obj \<Rightarrow> Return (h\<lparr>states := (states h)(a \<mapsto> f obj)\<rparr>))"

definition write_card :: "heap \<Rightarrow> addr \<Rightarrow> (PlayedCard \<Rightarrow> PlayedCard) \<Rightarrow> heap result" where
  "write_card h a f =
     (case played h a of
        None \<Rightarrow> Fault
      | Some pc \<Rightarrow> Return (h\<lparr>played := (played h)(a \<mapsto> f pc)\<rparr>))"

fun replicate_slots_h :: "nat list \<Rightarrow> addr \<Rightarrow> addr \<Rightarrow> heap \<Rightarrow> heap result" where
  "replicate_slots_h [] this newstate h = Return h"
| "replicate_slots_h (i # rest) this newstate h =
     (case states h this of
        None \<Rightarrow> Fault
      | Some obj \<Rightarrow>
         (case obj_cardsOnBoard obj ! i of
            None \<Rightarrow> Return h
          | Some p \<Rightarrow>
             (case played h p of
                None \<Rightarrow> Fault
              | Some pc \<Rightarrow>
                 (case alloc_card h pc of
                    (h1, q) \<Rightarrow>
                     (case write_state h1 newstate
                             (\<lambda>obj1. obj1\<lparr>obj_cardsOnBoard := (obj_cardsOnBoard obj1)[i := Some q]\<rparr>) of
                        Return h2 \<Rightarrow> replicate_slots_h rest this newstate h2
                      | Exit txt \<Rightarrow> Exit txt
                      | Fault \<Rightarrow> Fault)))))"

definition replicate_h :: "heap \<Rightarrow> addr \<Rightarrow> (heap \<times> addr) result" where
  "replicate_h h this =
     (case states h this of
        None \<Rightarrow> Fault
      | Some obj \<Rightarrow>
         (case alloc_state h of
            (h1, newstate) \<Rightarrow>
             (case write_state h1 newstate
                     (\<lambda>obj1. obj1\<lparr>obj_nextOnBoard := obj_nextOnBoard obj,
                                   obj_topOfTheDeck := obj_topOfTheDeck obj\<rparr>) of
                Return h2 \<Rightarrow>
                 (case replicate_slots_h [0..<CARDS_IN_DECK] this newstate h2 of
                    Return h3 \<Rightarrow> Return (h3, newstate)
                  | Exit txt \<Rightarrow> Exit txt
                  | Fault \<Rightarrow> Fault)
              | Exit txt \<Rightarrow> Exit txt
              | Fault \<Rightarrow> Fault)))"

fun delete_slots_h :: "addr option list \<Rightarrow> heap \<Rightarrow> heap result" where
  "delete_slots_h [] h = Return h"
| "delete_slots_h (None # rest) h = delete_slots_h rest h"
| "delete_slots_h (Some p # rest) h =
     (case played h p of
        None \<Rightarrow> Fault
      | Some pc \<Rightarrow> delete_slots_h rest (h\<lparr>played := (played h)(p := None)\<rparr>))"

definition delete_h :: "heap \<Rightarrow> addr \<Rightarrow> heap result" where
  "delete_h h this =
     (case states h this of
        None \<Rightarrow> Fault
      | Some obj \<Rightarrow>
         (case delete_slots_h (take CARDS_IN_DECK (obj_cardsOnBoard obj)) h of
            Return h1 \<Rightarrow> Return (h1\<lparr>states := (states h1)(this := None)\<rparr>)
          | Exit txt \<Rightarrow> Exit txt
          | Fault \<Rightarrow> Fault))"

fun isCardOnBoard_slots_h :: "addr option list \<Rightarrow> heap \<Rightarrow> nat option \<Rightarrow> bool result" where
  "isCardOnBoard_slots_h [] h val = Return False"
| "isCardOnBoard_slots_h (None # rest) h val = isCardOnBoard_slots_h rest h val"
| "isCardOnBoard_slots_h (Some p # rest) h val =
     (case played h p of
        None \<Rightarrow> Fault
      | Some pc \<Rightarrow>
         if card_ptr pc \<noteq> None \<and> card_ptr pc = val then Return True
         else isCardOnBoard_slots_h rest h val)"

definition isCardOnBoard_h :: "heap \<Rightarrow> addr \<Rightarrow> nat option \<Rightarrow> bool result" where
  "isCardOnBoard_h h this val =
     (case states h this of
        None \<Rightarrow> Fault
      | Some obj \<Rightarrow> isCardOnBoard_slots_h (take CARDS_IN_DECK (obj_cardsOnBoard obj)) h val)"

fun nextFromDeck_loop_h :: "sint list \<Rightarrow> heap \<Rightarrow> addr \<Rightarrow> (heap \<times> nat option) result" where
  "nextFromDeck_loop_h [] h this = Return (h, None)"
| "nextFromDeck_loop_h (i # rest) h this =
     (case isCardOnBoard_h h this (Some i) of
        Return on_board \<Rightarrow>
         if \<not> on_board
         then (case write_state h this (\<lambda>obj. obj\<lparr>obj_topOfTheDeck := i\<rparr>) of
                 Return h1 \<Rightarrow> Return (h1, Some i)
               | Exit txt \<Rightarrow> Exit txt
               | Fault \<Rightarrow> Fault)
         else nextFromDeck_loop_h rest h this
      | Exit txt \<Rightarrow> Exit txt
      | Fault \<Rightarrow> Fault)"

definition nextFromDeck_h :: "heap \<Rightarrow> addr \<Rightarrow> (heap \<times> nat option) result" where
  "nextFromDeck_h h this =
     (case states h this of
        None \<Rightarrow> Fault
      | Some obj \<Rightarrow>
         if obj_topOfTheDeck obj \<ge> CARDS_IN_DECK then Return (h, None)
         else nextFromDeck_loop_h [obj_topOfTheDeck obj..<CARDS_IN_DECK] h this)"

definition addNewCard_h :: "heap \<Rightarrow> addr \<Rightarrow> (heap \<times> bool) result" where
  "addNewCard_h h this =
     (case nextFromDeck_h h this of
        Return (h1, None) \<Rightarrow> Return (h1, False)
      | Return (h1, Some fromdeck) \<Rightarrow>
         (case states h1 this of
            None \<Rightarrow> Fault
          | Some obj \<Rightarrow>
             (case alloc_card h1 \<lparr>rotation = 0, position = obj_nextOnBoard obj,
                                  card_ptr = Some fromdeck\<rparr> of
                (h2, newcard) \<Rightarrow>
                 if obj_nextOnBoard obj < CARDS_IN_DECK
                 then (case write_state h2 this
                               (\<lambda>obj1. obj1\<lparr>obj_cardsOnBoard :=
                                                (obj_cardsOnBoard obj1)[obj_nextOnBoard obj := Some newcard],
                                              obj_nextOnBoard := (obj_nextOnBoard obj1 + 1) mod 256\<rparr>) of
                         Return h3 \<Rightarrow> Return (h3, True)
                       | Exit txt \<Rightarrow> Exit txt
                       | Fault \<Rightarrow> Fault)
                 else Fault))
      | Exit txt \<Rightarrow> Exit txt
      | Fault \<Rightarrow> Fault)"

definition replaceCard_h :: "heap \<Rightarrow> addr \<Rightarrow> addr \<Rightarrow> (heap \<times> bool) result" where
  "replaceCard_h h this cardp =
     (case nextFromDeck_h h this of
        Return (h1, None) \<Rightarrow> Return (h1, False)
      | Return (h1, Some fromdeck) \<Rightarrow>
         (case write_card h1 cardp (\<lambda>pc. pc\<lparr>card_ptr := Some fromdeck, rotation := 0\<rparr>) of
            Return h2 \<Rightarrow> Return (h2, True)
          | Exit txt \<Rightarrow> Exit txt
          | Fault \<Rightarrow> Fault)
      | Exit txt \<Rightarrow> Exit txt
      | Fault \<Rightarrow> Fault)"

definition getLastAdded_h :: "heap \<Rightarrow> addr \<Rightarrow> addr option result" where
  "getLastAdded_h h this =
     (case states h this of
        None \<Rightarrow> Fault
      | Some obj \<Rightarrow>
         (let last = (obj_nextOnBoard obj + 255) mod 256
          in if last < CARDS_IN_DECK then Return (obj_cardsOnBoard obj ! last) else Fault))"

definition rotate_h :: "heap \<Rightarrow> addr \<Rightarrow> (heap \<times> bool) result" where
  "rotate_h h cardp =
     (case played h cardp of
        None \<Rightarrow> Fault
      | Some pc \<Rightarrow>
         if rotation pc \<ge> 2 then Return (h, False)
         else (case write_card h cardp (\<lambda>pc1. pc1\<lparr>rotation := (rotation pc1 + 1) mod 256\<rparr>) of
                 Return h1 \<Rightarrow> Return (h1, True)
               | Exit txt \<Rightarrow> Exit txt
               | Fault \<Rightarrow> Fault))"

definition first_h :: "heap \<Rightarrow> addr \<Rightarrow> (heap \<times> addr option) result" where
  "first_h h this =
     (case replicate_h h this of
        Return (h1, newstate) \<Rightarrow>
         (case write_state h1 newstate (\<lambda>obj. obj\<lparr>obj_topOfTheDeck := 0\<rparr>) of
            Return h2 \<Rightarrow>
             (case addNewCard_h h2 newstate of
                Return (h3, added) \<Rightarrow>
                 if \<not> added
                 then (case delete_h h3 newstate of
                         Return h4 \<Rightarrow> Return (h4, None)
                       | Exit txt \<Rightarrow> Exit txt
                       | Fault \<Rightarrow> Fault)
                 else Return (h3, Some newstate)
              | Exit txt \<Rightarrow> Exit txt
              | Fault \<Rightarrow> Fault)
          | Exit txt \<Rightarrow> Exit txt
          | Fault \<Rightarrow> Fault)
      | Exit txt \<Rightarrow> Exit txt
      | Fault \<Rightarrow> Fault)"

definition next_h :: "heap \<Rightarrow> addr \<Rightarrow> (heap \<times> addr option) result" where
  "next_h h this =
     (case replicate_h h this of
        Return (h1, newstate) \<Rightarrow>
         (case getLastAdded_h h1 newstate of
            Return None \<Rightarrow> Fault
          | Return (Some cardp) \<Rightarrow>
             (case rotate_h h1 cardp of
                Return (h2, rotated) \<Rightarrow>
                 if rotated then Return (h2, Some newstate)
                 else (case replaceCard_h h2 newstate cardp of
                         Return (h3, replaced) \<Rightarrow>
                          if \<not> replaced
                          then (case delete_h h3 newstate of
                                  Return h4 \<Rightarrow> Return (h4, None)
                                | Exit txt \<Rightarrow> Exit txt
                                | Fault \<Rightarrow> Fault)
                          else Return (h3, Some newstate)
                       | Exit txt \<Rightarrow> Exit txt
                       | Fault \<Rightarrow> Fault)
              | Exit txt \<Rightarrow> Exit txt
              | Fault \<Rightarrow> Fault)
          | Exit txt \<Rightarrow> Exit txt
          | Fault \<Rightarrow> Fault)
      | Exit txt \<Rightarrow> Exit txt
      | Fault \<Rightarrow> Fault)"

text \<open>
  What the statements about the store need. A store is closed when every object lies below
  the allocation limit, every \<^verbatim>\<open>GameState\<close> object has nine slots, and every pointer in a slot
  lies below the limit. \<open>read_state\<close> reads a \<^verbatim>\<open>GameState\<close> object together with the
  placements its slots point to, as a board state of the first model; it is undefined when
  the address or one of the slots holds no object. \<open>agree L\<close> relates two stores that hold
  the same objects at all addresses below \<open>L\<close>. \<open>owned L\<close> says that a \<^verbatim>\<open>GameState\<close> object and
  all its placements lie at addresses from \<open>L\<close> on.
\<close>

definition heap_ok :: "heap \<Rightarrow> bool" where
  "heap_ok h \<longleftrightarrow>
     (\<forall>a pc. played h a = Some pc \<longrightarrow> a < next_free h) \<and>
     (\<forall>a obj. states h a = Some obj \<longrightarrow>
        a < next_free h \<and> length (obj_cardsOnBoard obj) = CARDS_IN_DECK \<and>
        (\<forall>p. Some p \<in> set (obj_cardsOnBoard obj) \<longrightarrow> p < next_free h))"

definition read_slot :: "heap \<Rightarrow> addr option \<Rightarrow> PlayedCard option option" where
  "read_slot h slot =
     (case slot of
        None \<Rightarrow> Some None
      | Some p \<Rightarrow> (case played h p of None \<Rightarrow> None | Some pc \<Rightarrow> Some (Some pc)))"

definition read_state :: "heap \<Rightarrow> addr \<Rightarrow> GameState option" where
  "read_state h a =
     (case states h a of
        None \<Rightarrow> None
      | Some obj \<Rightarrow>
         if list_all (\<lambda>slot. read_slot h slot \<noteq> None) (obj_cardsOnBoard obj)
         then Some \<lparr>nextOnBoard = obj_nextOnBoard obj,
                    topOfTheDeck = obj_topOfTheDeck obj,
                    cardsOnBoard = map (\<lambda>slot. the (read_slot h slot)) (obj_cardsOnBoard obj)\<rparr>
         else None)"

definition agree :: "addr \<Rightarrow> heap \<Rightarrow> heap \<Rightarrow> bool" where
  "agree L h h1 \<longleftrightarrow>
     (\<forall>a < L. played h1 a = played h a \<and> states h1 a = states h a) \<and>
     next_free h \<le> next_free h1"

definition owned :: "addr \<Rightarrow> heap \<Rightarrow> addr \<Rightarrow> bool" where
  "owned L h a \<longleftrightarrow>
     L \<le> a \<and>
     (\<exists>obj. states h a = Some obj \<and> length (obj_cardsOnBoard obj) = CARDS_IN_DECK \<and>
            (\<forall>p. Some p \<in> set (obj_cardsOnBoard obj) \<longrightarrow> L \<le> p))"

text \<open>
  A state object is \<open>sep\<close>arate when it has its nine slots and no two of them point to the
  same placement: every placement of a state comes from its own \<^verbatim>\<open>malloc\<close>, in
  \<^verbatim>\<open>replicate\<close> or in \<^verbatim>\<open>addNewCard\<close>. A write through one slot then changes that slot's
  placement only.
\<close>

definition sep :: "heap \<Rightarrow> addr \<Rightarrow> bool" where
  "sep h a \<longleftrightarrow>
     (case states h a of
        None \<Rightarrow> False
      | Some obj \<Rightarrow>
         length (obj_cardsOnBoard obj) = CARDS_IN_DECK \<and>
         distinct (filter (\<lambda>slot. slot \<noteq> None) (obj_cardsOnBoard obj)))"

text \<open>
  The loop of \<^verbatim>\<open>replicate\<close> on a board: the slots are copied in the order of the indices
  given, up to the first empty one.
\<close>

fun copy_board ::
  "nat list \<Rightarrow> PlayedCard option list \<Rightarrow> PlayedCard option list \<Rightarrow> PlayedCard option list" where
  "copy_board [] src dst = dst"
| "copy_board (i # rest) src dst =
     (case src ! i of None \<Rightarrow> dst | Some pc \<Rightarrow> copy_board rest src (dst[i := Some pc]))"

section \<open>Properties\<close>

subsection \<open>The neighbour table\<close>

lemma NEIGHBORMAP_rows:
  "row \<in> set NEIGHBORMAP \<longleftrightarrow>
     row = [0, 1, 0] \<or> row = [0, 2, 1] \<or> row = [0, 6, 2] \<or> row = [1, 5, 2] \<or>
     row = [2, 3, 2] \<or> row = [3, 4, 0] \<or> row = [3, 7, 1] \<or> row = [4, 5, 1] \<or>
     row = [5, 8, 0]"
  by (simp add: NEIGHBORMAP_def)

lemma take_NEIGHBORMAP: "take NMAP_SIZE NEIGHBORMAP = NEIGHBORMAP"
  by (simp add: NMAP_SIZE_def NEIGHBORMAP_def)

lemma getCommonEdge_table:
  "getCommonEdge p q =
    (if position p = 0 \<and> position q = 1 then Return 0
     else if position p = 0 \<and> position q = 2 then Return 1
     else if position p = 0 \<and> position q = 6 then Return 2
     else if position p = 1 \<and> position q = 5 then Return 2
     else if position p = 2 \<and> position q = 3 then Return 2
     else if position p = 3 \<and> position q = 4 then Return 0
     else if position p = 3 \<and> position q = 7 then Return 1
     else if position p = 4 \<and> position q = 5 then Return 1
     else if position p = 5 \<and> position q = 8 then Return 0
     else Exit ''[+] ERROR: getCommonEdge(): not neighbors'')"
  by (simp add: getCommonEdge_def NEIGHBORMAP_def NMAP_SIZE_def
      NMAP_FIRST_def NMAP_SECOND_def NMAP_COMMON_EDGE_def)

lemma getCommonEdge_found:
  assumes "[a, b, c] \<in> set NEIGHBORMAP" "position p = a" "position q = b"
  shows "getCommonEdge p q = Return c"
  using assms unfolding NEIGHBORMAP_rows
  by (elim disjE) (simp_all add: getCommonEdge_table)

lemma getCommonEdge_rows_missing:
  "\<forall>row \<in> set rows. \<not> (row ! NMAP_FIRST = position p \<and> row ! NMAP_SECOND = position q) \<Longrightarrow>
   getCommonEdge_rows rows p q = Exit ''[+] ERROR: getCommonEdge(): not neighbors''"
  by (induction rows) simp_all

lemma getCommonEdge_missing:
  assumes "\<forall>row \<in> set NEIGHBORMAP. \<not> (row ! NMAP_FIRST = position p \<and> row ! NMAP_SECOND = position q)"
  shows "getCommonEdge p q = Exit ''[+] ERROR: getCommonEdge(): not neighbors''"
  unfolding getCommonEdge_def take_NEIGHBORMAP
  using assms by (rule getCommonEdge_rows_missing)

text \<open>
  Claim C5, as far as the code goes. For every row \<open>[a, b, c]\<close> of the table, the query for
  placements at positions \<open>a\<close> and \<open>b\<close> (in this order) returns the common edge \<open>c\<close>. When no
  row has the two positions as its first and second entry, the query prints the diagnostic
  \<^verbatim>\<open>[+] ERROR: getCommonEdge(): not neighbors\<close> on standard output and leaves the process
  through \<^verbatim>\<open>exit(0)\<close>.
\<close>

theorem getCommonEdge_spec:
  "([a, b, c] \<in> set NEIGHBORMAP \<and> position p = a \<and> position q = b \<longrightarrow>
      getCommonEdge p q = Return c) \<and>
   ((\<forall>row \<in> set NEIGHBORMAP. \<not> (row ! NMAP_FIRST = position p \<and> row ! NMAP_SECOND = position q)) \<longrightarrow>
      getCommonEdge p q = Exit ''[+] ERROR: getCommonEdge(): not neighbors'')"
  using getCommonEdge_found [of a b c p q] getCommonEdge_missing [of p q] by blast

theorem getCommonEdge_spec_witness:
  "[3, 7, 1] \<in> set NEIGHBORMAP \<and>
   getCommonEdge \<lparr>rotation = 2, position = 3, card_ptr = Some 4\<rparr>
                 \<lparr>rotation = 1, position = 7, card_ptr = Some 5\<rparr> = Return 1 \<and>
   list_all (\<lambda>row. \<not> (row ! NMAP_FIRST = 7 \<and> row ! NMAP_SECOND = 3)) NEIGHBORMAP \<and>
   getCommonEdge \<lparr>rotation = 1, position = 7, card_ptr = Some 5\<rparr>
                 \<lparr>rotation = 2, position = 3, card_ptr = Some 4\<rparr>
     = Exit ''[+] ERROR: getCommonEdge(): not neighbors''"
proof -
  have row: "[3, 7, 1] \<in> set NEIGHBORMAP"
    by (simp add: NEIGHBORMAP_rows)
  have none: "list_all (\<lambda>row. \<not> (row ! NMAP_FIRST = 7 \<and> row ! NMAP_SECOND = 3)) NEIGHBORMAP"
    by (simp add: NEIGHBORMAP_def NMAP_FIRST_def NMAP_SECOND_def)
  have "getCommonEdge \<lparr>rotation = 2, position = 3, card_ptr = Some 4\<rparr>
                 \<lparr>rotation = 1, position = 7, card_ptr = Some 5\<rparr> = Return 1"
    using row
      getCommonEdge_spec [of 3 7 1 "\<lparr>rotation = 2, position = 3, card_ptr = Some 4\<rparr>"
        "\<lparr>rotation = 1, position = 7, card_ptr = Some 5\<rparr>"]
    by simp
  moreover have "getCommonEdge \<lparr>rotation = 1, position = 7, card_ptr = Some 5\<rparr>
                 \<lparr>rotation = 2, position = 3, card_ptr = Some 4\<rparr>
     = Exit ''[+] ERROR: getCommonEdge(): not neighbors''"
    using none
      getCommonEdge_spec [of 3 7 1 "\<lparr>rotation = 1, position = 7, card_ptr = Some 5\<rparr>"
        "\<lparr>rotation = 2, position = 3, card_ptr = Some 4\<rparr>"]
    by (simp add: list_all_iff)
  ultimately show ?thesis
    using row none by simp
qed

text \<open>
  The claim as worded says that a query outside the table ends the process with no further
  output. For the neighbouring positions 1 and 0, asked in this order, the text printed
  before \<^verbatim>\<open>exit(0)\<close> is the diagnostic, which is not empty.
\<close>

theorem getCommonEdge_silent_counterexample:
  "getCommonEdge \<lparr>rotation = 0, position = 1, card_ptr = Some 6\<rparr>
                 \<lparr>rotation = 0, position = 0, card_ptr = Some 0\<rparr>
     = Exit ''[+] ERROR: getCommonEdge(): not neighbors'' \<and>
   getCommonEdge \<lparr>rotation = 0, position = 1, card_ptr = Some 6\<rparr>
                 \<lparr>rotation = 0, position = 0, card_ptr = Some 0\<rparr> \<noteq> Exit []"
  by (simp add: getCommonEdge_table)

subsection \<open>Edge matching\<close>

lemma matchesNeighbor_row:
  assumes "[a, b, c] \<in> set NEIGHBORMAP" "position p = a" "position q = b"
    and "card_ptr p = Some i" "card_ptr q = Some j" "i < CARDS_IN_DECK" "j < CARDS_IN_DECK"
  shows "matchesNeighbor p q =
     Return (let e1 = edges (Deck ! i) ! ((c + rotation p) mod 3);
                 e2 = edges (Deck ! j) ! ((c + rotation q) mod 3)
             in e1 ! 0 = e2 ! 0 \<and> e1 ! 1 \<noteq> e2 ! 1)"
proof -
  have "getCommonEdge p q = Return c"
    using assms(1-3) by (rule getCommonEdge_found)
  then show ?thesis
    using assms(4-7) by (simp add: matchesNeighbor_def EDGES_IN_CARD_def Let_def)
qed

text \<open>
  Claim C2. Let \<open>[a, b, c]\<close> be a row of the table (so \<open>a < b\<close>), \<open>p\<close> a placement at \<open>a\<close>
  holding catalog card \<open>i\<close> and \<open>q\<close> a placement at \<open>b\<close> holding catalog card \<open>j\<close>. Then
  \<^verbatim>\<open>matchesNeighbor\<close> reads label \<open>(c + rotation p) mod 3\<close> of card \<open>i\<close> and label
  \<open>(c + rotation q) mod 3\<close> of card \<open>j\<close> and returns true exactly when the two labels have the
  same first character and different second characters.
\<close>

theorem matchesNeighbor_spec:
  assumes "[a, b, c] \<in> set NEIGHBORMAP" "position p = a" "position q = b"
    and "card_ptr p = Some i" "card_ptr q = Some j" "i < CARDS_IN_DECK" "j < CARDS_IN_DECK"
  shows "a < b \<and> matchesNeighbor p q =
     Return (let e1 = edges (Deck ! i) ! ((c + rotation p) mod 3);
                 e2 = edges (Deck ! j) ! ((c + rotation q) mod 3)
             in e1 ! 0 = e2 ! 0 \<and> e1 ! 1 \<noteq> e2 ! 1)"
proof -
  have "a < b"
    using assms(1) unfolding NEIGHBORMAP_rows by (elim disjE) simp_all
  with matchesNeighbor_row [OF assms] show ?thesis
    by simp
qed

theorem matchesNeighbor_spec_witness:
  "matchesNeighbor \<lparr>rotation = 1, position = 0, card_ptr = Some 1\<rparr>
                   \<lparr>rotation = 0, position = 1, card_ptr = Some 0\<rparr> = Return True \<and>
   matchesNeighbor \<lparr>rotation = 0, position = 0, card_ptr = Some 1\<rparr>
                   \<lparr>rotation = 0, position = 1, card_ptr = Some 0\<rparr> = Return False"
proof -
  have row: "[0, 1, 0] \<in> set NEIGHBORMAP"
    by (simp add: NEIGHBORMAP_rows)
  have deck: "(1::nat) < CARDS_IN_DECK" "(0::nat) < CARDS_IN_DECK"
    by (simp_all add: CARDS_IN_DECK_def Deck_def)
  show ?thesis
    using matchesNeighbor_spec [OF row, of "\<lparr>rotation = 1, position = 0, card_ptr = Some 1\<rparr>"
        "\<lparr>rotation = 0, position = 1, card_ptr = Some 0\<rparr>" 1 0]
      matchesNeighbor_spec [OF row, of "\<lparr>rotation = 0, position = 0, card_ptr = Some 1\<rparr>"
        "\<lparr>rotation = 0, position = 1, card_ptr = Some 0\<rparr>" 1 0]
      deck
    by (simp add: Deck_def)
qed

lemma matchesNeighbor_empty_this:
  "card_ptr p = None \<Longrightarrow> matchesNeighbor p q = Return False"
  by (simp add: matchesNeighbor_def)

text \<open>
  Claim C3 says that \<^verbatim>\<open>matchesNeighbor\<close> returns false as soon as either placement has no
  card. The code tests \<^verbatim>\<open>this->card\<close> only. With a card at position 0 and a placement
  without a card at position 1, the call looks the common edge up and then reads
  \<^verbatim>\<open>other->card->edges\<close> through the \<^verbatim>\<open>NULL\<close> pointer.
\<close>

theorem matchesNeighbor_empty_other_faults:
  "matchesNeighbor \<lparr>rotation = 0, position = 0, card_ptr = Some 0\<rparr>
                   \<lparr>rotation = 0, position = 1, card_ptr = None\<rparr> = Fault"
  by (simp add: matchesNeighbor_def getCommonEdge_table CARDS_IN_DECK_def Deck_def)

text \<open>
  Claim C4, as far as the code goes. The table lists every adjacency once, lower position
  first, and \<^verbatim>\<open>matchesNeighbor\<close> looks the pair up in the order of its arguments. What is
  symmetric is the rule on the labels: when \<open>p\<close> at \<open>a\<close> matches \<open>q\<close> at \<open>b\<close> for a row
  \<open>[a, b, c]\<close>, then the two placements with their cards and rotations exchanged (the card
  and rotation of \<open>q\<close> at \<open>a\<close>, those of \<open>p\<close> at \<open>b\<close>) match as well.
\<close>

theorem matchesNeighbor_exchange:
  assumes "[a, b, c] \<in> set NEIGHBORMAP" "position p = a" "position q = b"
    and "card_ptr p = Some i" "card_ptr q = Some j" "i < CARDS_IN_DECK" "j < CARDS_IN_DECK"
    and "matchesNeighbor p q = Return True"
  shows "matchesNeighbor (q\<lparr>position := position p\<rparr>) (p\<lparr>position := position q\<rparr>) = Return True"
proof -
  have "getCommonEdge p q = Return c"
    using assms(1-3) by (rule getCommonEdge_found)
  moreover have "getCommonEdge (q\<lparr>position := position p\<rparr>) (p\<lparr>position := position q\<rparr>) = Return c"
    using assms(1-3) by (intro getCommonEdge_found) auto
  ultimately show ?thesis
    using assms(4-8) by (auto simp: matchesNeighbor_def Let_def)
qed

theorem matchesNeighbor_exchange_witness:
  "matchesNeighbor \<lparr>rotation = 0, position = 0, card_ptr = Some 0\<rparr>
                   \<lparr>rotation = 0, position = 1, card_ptr = Some 6\<rparr> = Return True \<and>
   matchesNeighbor \<lparr>rotation = 0, position = 0, card_ptr = Some 6\<rparr>
                   \<lparr>rotation = 0, position = 1, card_ptr = Some 0\<rparr> = Return True"
proof -
  have row: "[0, 1, 0] \<in> set NEIGHBORMAP"
    by (simp add: NEIGHBORMAP_rows)
  have deck: "(0::nat) < CARDS_IN_DECK" "(6::nat) < CARDS_IN_DECK"
    by (simp_all add: CARDS_IN_DECK_def Deck_def)
  have m: "matchesNeighbor \<lparr>rotation = 0, position = 0, card_ptr = Some 0\<rparr>
                   \<lparr>rotation = 0, position = 1, card_ptr = Some 6\<rparr> = Return True"
    by (simp add: matchesNeighbor_def getCommonEdge_table CARDS_IN_DECK_def Deck_def
        EDGES_IN_CARD_def)
  show ?thesis
    using m deck
      matchesNeighbor_exchange [OF row, of "\<lparr>rotation = 0, position = 0, card_ptr = Some 0\<rparr>"
        "\<lparr>rotation = 0, position = 1, card_ptr = Some 6\<rparr>" 0 6]
    by simp
qed

text \<open>
  The claim as worded asks for the call with the arguments in the other order. For a
  matching pair at positions 0 and 1 that call finds no row \<open>[1, 0, _]\<close> and ends the
  process instead of returning true.
\<close>

theorem matchesNeighbor_swapped_counterexample:
  "matchesNeighbor \<lparr>rotation = 0, position = 0, card_ptr = Some 0\<rparr>
                   \<lparr>rotation = 0, position = 1, card_ptr = Some 6\<rparr> = Return True \<and>
   matchesNeighbor \<lparr>rotation = 0, position = 1, card_ptr = Some 6\<rparr>
                   \<lparr>rotation = 0, position = 0, card_ptr = Some 0\<rparr>
     = Exit ''[+] ERROR: getCommonEdge(): not neighbors''"
  by (simp add: matchesNeighbor_def getCommonEdge_table CARDS_IN_DECK_def Deck_def
      EDGES_IN_CARD_def)

text \<open>
  This holds for every row of the table: the table has no row with the two positions of
  another row exchanged, so the call with the arguments in the other order ends the
  process whenever its first argument holds a card.
\<close>

lemma matchesNeighbor_swapped_exits:
  assumes "[a, b, c] \<in> set NEIGHBORMAP" "position p = a" "position q = b"
    and "card_ptr q = Some j"
  shows "matchesNeighbor q p = Exit ''[+] ERROR: getCommonEdge(): not neighbors''"
proof -
  have lt: "row ! NMAP_FIRST < row ! NMAP_SECOND" if "row \<in> set NEIGHBORMAP" for row
    using that unfolding NEIGHBORMAP_rows NMAP_FIRST_def NMAP_SECOND_def
    by (elim disjE) simp_all
  from lt [OF assms(1)] have "a < b"
    by (simp add: NMAP_FIRST_def NMAP_SECOND_def)
  with lt have "\<forall>row \<in> set NEIGHBORMAP. \<not> (row ! NMAP_FIRST = b \<and> row ! NMAP_SECOND = a)"
    by (metis less_asym)
  then have "getCommonEdge q p = Exit ''[+] ERROR: getCommonEdge(): not neighbors''"
    unfolding assms(2,3) [symmetric] by (rule getCommonEdge_missing)
  with assms(4) show ?thesis
    by (simp add: matchesNeighbor_def)
qed

subsection \<open>Rotation\<close>

text \<open>
  Claim C7. For every placement, \<^verbatim>\<open>rotate\<close> increments the rotation and reports success
  when the rotation is below 2, and otherwise reports exhaustion and leaves the placement
  as it is. From rotation 0 the first two calls succeed, the third one fails with the
  rotation still 2: the rotation never wraps back to 0.
\<close>

theorem rotate_card_spec:
  "rotate_card p =
     (if rotation p < 2 then (True, p\<lparr>rotation := rotation p + 1\<rparr>) else (False, p)) \<and>
   (let p0 = p\<lparr>rotation := 0\<rparr>;
        r1 = rotate_card p0;
        r2 = rotate_card (snd r1);
        r3 = rotate_card (snd r2)
    in fst r1 \<and> rotation (snd r1) = 1 \<and>
       fst r2 \<and> rotation (snd r2) = 2 \<and>
       \<not> fst r3 \<and> snd r3 = snd r2 \<and> rotation (snd r3) = 2)"
  by (simp add: rotate_card_def Let_def)

subsection \<open>Drawing from the deck\<close>

lemma isCardOnBoard_iff:
  "isCardOnBoard s (Some i) \<longleftrightarrow>
     (\<exists>pc. Some pc \<in> set (take CARDS_IN_DECK (cardsOnBoard s)) \<and> card_ptr pc = Some i)"
  unfolding isCardOnBoard_def list_ex_iff
  by (auto split: option.splits)

lemma nextFromDeck_loop_None:
  "nextFromDeck_loop xs s = (None, s') \<Longrightarrow>
     s' = s \<and> (\<forall>j \<in> set xs. isCardOnBoard s (Some j))"
  by (induction xs) (auto split: if_splits)

lemma nextFromDeck_loop_Some:
  "nextFromDeck_loop xs s = (Some i, s') \<Longrightarrow>
     s' = s\<lparr>topOfTheDeck := i\<rparr> \<and> \<not> isCardOnBoard s (Some i) \<and>
     (\<exists>ys zs. xs = ys @ i # zs \<and> (\<forall>j \<in> set ys. isCardOnBoard s (Some j)))"
proof (induction xs)
  case Nil
  then show ?case by simp
next
  case (Cons x xs)
  show ?case
  proof (cases "isCardOnBoard s (Some x)")
    case True
    with Cons obtain ys zs where
      "s' = s\<lparr>topOfTheDeck := i\<rparr>" "\<not> isCardOnBoard s (Some i)"
      "xs = ys @ i # zs" "\<forall>j \<in> set ys. isCardOnBoard s (Some j)"
      by auto
    with True have "x # xs = (x # ys) @ i # zs \<and> (\<forall>j \<in> set (x # ys). isCardOnBoard s (Some j))"
      by simp
    with \<open>s' = s\<lparr>topOfTheDeck := i\<rparr>\<close> \<open>\<not> isCardOnBoard s (Some i)\<close> show ?thesis
      by blast
  next
    case False
    with Cons.prems have "i = x" "s' = s\<lparr>topOfTheDeck := i\<rparr>"
      by auto
    with False have "x # xs = [] @ i # xs \<and> (\<forall>j \<in> set []. isCardOnBoard s (Some j))"
      by simp
    with False \<open>i = x\<close> \<open>s' = s\<lparr>topOfTheDeck := i\<rparr>\<close> show ?thesis
      by blast
  qed
qed

lemma upt_split_mid:
  assumes "[a..<b] = ys @ i # zs"
  shows "a \<le> i \<and> i < b \<and> set ys = {a..<i}"
proof -
  have len: "length ys < b - a"
    using arg_cong [OF assms, of length] by simp
  have i: "i = a + length ys"
    using arg_cong [OF assms, of "\<lambda>l. l ! length ys"] len by simp
  have "ys = take (length ys) [a..<b]"
    using assms by simp
  also have "\<dots> = [a..<a + length ys]"
    using len by (simp add: take_upt)
  finally have "set ys = {a..<i}"
    using i by (metis atLeastLessThan_upt)
  with i len show ?thesis by simp
qed

text \<open>
  Claim C6. For every board state, \<^verbatim>\<open>nextFromDeck\<close> scans the catalog upwards from
  \<^verbatim>\<open>topOfTheDeck\<close>. A card \<open>i\<close> it returns lies at or after the cursor, is held by no placement
  of the board, and every catalog index between the cursor and \<open>i\<close> is on the board; the
  cursor is set to \<open>i\<close>. It returns \<^verbatim>\<open>NULL\<close> exactly when every catalog index from the cursor to
  the end is on the board, and then changes nothing. The cursor never decreases, and the
  board and \<^verbatim>\<open>nextOnBoard\<close> are left alone.
\<close>

theorem nextFromDeck_spec:
  assumes "nextFromDeck s = (r, s')"
  shows "(case r of
            Some i \<Rightarrow>
              topOfTheDeck s \<le> i \<and> i < CARDS_IN_DECK \<and>
              (\<forall>pc. Some pc \<in> set (take CARDS_IN_DECK (cardsOnBoard s)) \<longrightarrow> card_ptr pc \<noteq> Some i) \<and>
              (\<forall>j. topOfTheDeck s \<le> j \<and> j < i \<longrightarrow> isCardOnBoard s (Some j)) \<and>
              s' = s\<lparr>topOfTheDeck := i\<rparr>
          | None \<Rightarrow> s' = s) \<and>
         (r = None \<longleftrightarrow>
            (\<forall>j. topOfTheDeck s \<le> j \<and> j < CARDS_IN_DECK \<longrightarrow> isCardOnBoard s (Some j))) \<and>
         topOfTheDeck s \<le> topOfTheDeck s' \<and>
         cardsOnBoard s' = cardsOnBoard s \<and> nextOnBoard s' = nextOnBoard s"
proof (cases "topOfTheDeck s \<ge> CARDS_IN_DECK")
  case True
  with assms show ?thesis
    by (auto simp: nextFromDeck_def)
next
  case False
  then have loop: "nextFromDeck_loop [topOfTheDeck s..<CARDS_IN_DECK] s = (r, s')"
    using assms by (simp add: nextFromDeck_def)
  show ?thesis
  proof (cases r)
    case None
    with loop nextFromDeck_loop_None [of "[topOfTheDeck s..<CARDS_IN_DECK]" s s']
    show ?thesis by simp
  next
    case (Some i)
    with loop nextFromDeck_loop_Some [of "[topOfTheDeck s..<CARDS_IN_DECK]" s i s']
    obtain ys zs where
      s': "s' = s\<lparr>topOfTheDeck := i\<rparr>" and free: "\<not> isCardOnBoard s (Some i)"
      and split: "[topOfTheDeck s..<CARDS_IN_DECK] = ys @ i # zs"
      and used: "\<forall>j \<in> set ys. isCardOnBoard s (Some j)"
      by blast
    from upt_split_mid [OF split]
    have range: "topOfTheDeck s \<le> i" "i < CARDS_IN_DECK" "set ys = {topOfTheDeck s..<i}"
      by simp_all
    from free have "\<forall>pc. Some pc \<in> set (take CARDS_IN_DECK (cardsOnBoard s)) \<longrightarrow> card_ptr pc \<noteq> Some i"
      by (simp add: isCardOnBoard_iff)
    moreover from used range(3) have "\<forall>j. topOfTheDeck s \<le> j \<and> j < i \<longrightarrow> isCardOnBoard s (Some j)"
      by simp
    moreover from free range have "\<not> (\<forall>j. topOfTheDeck s \<le> j \<and> j < CARDS_IN_DECK \<longrightarrow> isCardOnBoard s (Some j))"
      by blast
    ultimately show ?thesis
      using Some s' range(1,2) by simp
  qed
qed

lemma CARDS_IN_DECK_9: "CARDS_IN_DECK = 9"
  by (simp add: CARDS_IN_DECK_def Deck_def)

lemma upt_9: "[0..<9] = [0, 1, 2, 3, 4, 5, 6, 7, 8]"
  by (simp add: upt_rec)

theorem nextFromDeck_spec_witness:
  "nextFromDeck
     \<lparr>nextOnBoard = 2, topOfTheDeck = 0,
      cardsOnBoard = [Some \<lparr>rotation = 1, position = 0, card_ptr = Some 1\<rparr>,
                      Some \<lparr>rotation = 0, position = 1, card_ptr = Some 0\<rparr>,
                      None, None, None, None, None, None, None]\<rparr>
   = (Some 2,
      \<lparr>nextOnBoard = 2, topOfTheDeck = 2,
       cardsOnBoard = [Some \<lparr>rotation = 1, position = 0, card_ptr = Some 1\<rparr>,
                       Some \<lparr>rotation = 0, position = 1, card_ptr = Some 0\<rparr>,
                       None, None, None, None, None, None, None]\<rparr>) \<and>
   isCardOnBoard
     \<lparr>nextOnBoard = 2, topOfTheDeck = 0,
      cardsOnBoard = [Some \<lparr>rotation = 1, position = 0, card_ptr = Some 1\<rparr>,
                      Some \<lparr>rotation = 0, position = 1, card_ptr = Some 0\<rparr>,
                      None, None, None, None, None, None, None]\<rparr> (Some 1)"
proof -
  let ?s = "\<lparr>nextOnBoard = 2, topOfTheDeck = 0,
      cardsOnBoard = [Some \<lparr>rotation = 1, position = 0, card_ptr = Some 1\<rparr>,
                      Some \<lparr>rotation = 0, position = 1, card_ptr = Some 0\<rparr>,
                      None, None, None, None, None, None, None]\<rparr>"
  have run: "nextFromDeck ?s = (Some 2, ?s\<lparr>topOfTheDeck := 2\<rparr>)"
    by (simp add: nextFromDeck_def CARDS_IN_DECK_9 upt_9 isCardOnBoard_def)
  from nextFromDeck_spec [OF run]
  have "\<forall>j. topOfTheDeck ?s \<le> j \<and> j < 2 \<longrightarrow> isCardOnBoard ?s (Some j)"
    by simp
  then have "isCardOnBoard ?s (Some 1)"
    by simp
  with run show ?thesis
    by simp
qed

subsection \<open>Boards of the reachable shape\<close>

lemma length_board_of: "length pcs \<le> CARDS_IN_DECK \<Longrightarrow> length (board_of pcs) = CARDS_IN_DECK"
  by (simp add: board_of_def)

lemma placed_mk: "placed (mk_state pcs cur) = pcs"
  by (simp add: placed_def mk_state_def board_of_def comp_def)

lemma wf_state_mk: "wf_cards pcs cur \<Longrightarrow> wf_state (mk_state pcs cur)"
  by (simp add: wf_state_def placed_mk) (simp add: mk_state_def)

lemma wf_state_cases:
  assumes "wf_state s"
  obtains pcs cur where "s = mk_state pcs cur" "wf_cards pcs cur"
  using assms unfolding wf_state_def by blast

lemma takeWhile_board_of:
  "takeWhile (\<lambda>slot. slot \<noteq> None) (board_of pcs) = map Some pcs"
proof -
  have "takeWhile (\<lambda>slot. slot \<noteq> None) (map Some pcs @ List.replicate k None) = map Some pcs" for k
    by (cases k) (simp_all add: takeWhile_append2 takeWhile_tail del: not_None_eq)
  then show ?thesis unfolding board_of_def by blast
qed

lemma take_board_of:
  "length pcs \<le> CARDS_IN_DECK \<Longrightarrow> take CARDS_IN_DECK (board_of pcs) = board_of pcs"
  by (simp add: length_board_of)

lemma replicate_state_mk:
  assumes "length pcs \<le> CARDS_IN_DECK"
  shows "replicate_state (mk_state pcs cur) = mk_state pcs cur"
proof -
  have "takeWhile (\<lambda>slot. slot \<noteq> None) (take CARDS_IN_DECK (cardsOnBoard (mk_state pcs cur)))
        = map Some pcs"
    using take_board_of [OF assms] takeWhile_board_of [of pcs] by (simp add: mk_state_def)
  then have "replicate_state (mk_state pcs cur) =
     \<lparr>nextOnBoard = length pcs, topOfTheDeck = cur,
      cardsOnBoard = map Some pcs @ List.replicate (CARDS_IN_DECK - length (map Some pcs)) None\<rparr>"
    unfolding replicate_state_def Let_def by (simp add: mk_state_def)
  then show ?thesis
    by (simp add: mk_state_def board_of_def)
qed

lemma set_board_of: "Some pc \<in> set (board_of pcs) \<longleftrightarrow> pc \<in> set pcs"
  by (auto simp: board_of_def)

lemma isCardOnBoard_mk:
  assumes "length pcs \<le> CARDS_IN_DECK"
  shows "isCardOnBoard (mk_state pcs cur) (Some c) \<longleftrightarrow> Some c \<in> set (map card_ptr pcs)"
proof -
  have "isCardOnBoard (mk_state pcs cur) (Some c) \<longleftrightarrow>
        (\<exists>pc. Some pc \<in> set (board_of pcs) \<and> card_ptr pc = Some c)"
    using take_board_of [OF assms] by (simp add: isCardOnBoard_iff mk_state_def)
  also have "\<dots> \<longleftrightarrow> (\<exists>pc \<in> set pcs. card_ptr pc = Some c)"
    by (auto simp: set_board_of)
  also have "\<dots> \<longleftrightarrow> Some c \<in> set (map card_ptr pcs)"
    by force
  finally show ?thesis .
qed

lemma nextFromDeck_loop_find:
  "nextFromDeck_loop xs s =
     (case List.find (\<lambda>i. \<not> isCardOnBoard s (Some i)) xs of
        None \<Rightarrow> (None, s)
      | Some i \<Rightarrow> (Some i, s\<lparr>topOfTheDeck := i\<rparr>))"
  by (induction xs) simp_all

lemma nextFromDeck_mk:
  assumes "length pcs \<le> CARDS_IN_DECK"
  shows "nextFromDeck (mk_state pcs cur) =
     (case unused pcs cur of
        None \<Rightarrow> (None, mk_state pcs cur)
      | Some i \<Rightarrow> (Some i, mk_state pcs i))"
proof -
  have "List.find (\<lambda>i. \<not> isCardOnBoard (mk_state pcs cur) (Some i)) xs =
        List.find (\<lambda>i. Some i \<notin> set (map card_ptr pcs)) xs" for xs
    by (rule find_cong) (simp_all add: isCardOnBoard_mk [OF assms])
  then have loop: "nextFromDeck_loop [cur..<CARDS_IN_DECK] (mk_state pcs cur) =
     (case unused pcs cur of
        None \<Rightarrow> (None, mk_state pcs cur)
      | Some i \<Rightarrow> (Some i, (mk_state pcs cur)\<lparr>topOfTheDeck := i\<rparr>))"
    by (simp add: nextFromDeck_loop_find unused_def)
  have upd: "(mk_state pcs cur)\<lparr>topOfTheDeck := i\<rparr> = mk_state pcs i" for i
    by (simp add: mk_state_def)
  show ?thesis
  proof (cases "topOfTheDeck (mk_state pcs cur) \<ge> CARDS_IN_DECK")
    case True
    then have "unused pcs cur = None"
      by (simp add: unused_def mk_state_def)
    with True show ?thesis
      by (simp add: nextFromDeck_def)
  next
    case False
    then have "nextFromDeck (mk_state pcs cur) =
        nextFromDeck_loop [cur..<CARDS_IN_DECK] (mk_state pcs cur)"
      by (simp add: nextFromDeck_def mk_state_def)
    then show ?thesis
      using loop by (simp add: upd split: option.split)
  qed
qed

lemma unused_Some:
  "unused pcs cur = Some i \<Longrightarrow> cur \<le> i \<and> i < CARDS_IN_DECK \<and> Some i \<notin> set (map card_ptr pcs)"
  unfolding unused_def
  by (auto simp: find_Some_iff)

lemma unused_None:
  "unused pcs cur = None \<Longrightarrow> cur \<le> i \<Longrightarrow> i < CARDS_IN_DECK \<Longrightarrow> Some i \<in> set (map card_ptr pcs)"
  unfolding unused_def
  by (auto simp: find_None_iff)

lemma wf_cards_room:
  assumes "wf_cards pcs cur" "i < CARDS_IN_DECK" "Some i \<notin> set (map card_ptr pcs)"
  shows "length pcs < CARDS_IN_DECK"
proof -
  have sub: "set (map card_ptr pcs) \<subseteq> Some ` ({..<CARDS_IN_DECK} - {i})"
  proof
    fix x assume "x \<in> set (map card_ptr pcs)"
    then obtain pc where pc: "pc \<in> set pcs" "x = card_ptr pc" by auto
    with assms(1) have "holds_card pc"
      by (auto simp: wf_cards_def list_all_iff)
    then obtain c where "card_ptr pc = Some c" "c < CARDS_IN_DECK"
      by (auto simp: holds_card_def split: option.splits)
    with pc assms(3) show "x \<in> Some ` ({..<CARDS_IN_DECK} - {i})"
      by force
  qed
  have "length pcs = card (set (map card_ptr pcs))"
    using assms(1) by (metis distinct_card length_map wf_cards_def)
  also have "\<dots> \<le> card (Some ` ({..<CARDS_IN_DECK} - {i}))"
    by (rule card_mono [OF _ sub]) simp
  also have "\<dots> = card ({..<CARDS_IN_DECK} - {i})"
    by (simp add: card_image)
  also have "\<dots> < CARDS_IN_DECK"
    using assms(2) by (simp add: card_Diff_singleton_if)
  finally show ?thesis .
qed

subsection \<open>The transitions on boards of the reachable shape\<close>

lemma board_of_append:
  assumes "length pcs < CARDS_IN_DECK"
  shows "(board_of pcs)[length pcs := Some x] = board_of (pcs @ [x])"
proof -
  from assms obtain k where k: "CARDS_IN_DECK - length pcs = Suc k"
    by (metis Suc_diff_Suc)
  then have k': "CARDS_IN_DECK - Suc (length pcs) = k"
    by simp
  show ?thesis
    by (simp add: board_of_def k k' list_update_append)
qed

lemma board_of_last:
  assumes "pcs \<noteq> []"
  shows "board_of pcs ! (length pcs - Suc 0) = Some (last pcs)"
  using assms by (simp add: board_of_def nth_append last_conv_nth)

lemma board_of_update_last:
  assumes "pcs \<noteq> []"
  shows "(board_of pcs)[length pcs - Suc 0 := Some x] = board_of (butlast pcs @ [x])"
proof -
  from assms obtain ys y where pcs: "pcs = ys @ [y]"
    by (metis append_butlast_last_id)
  show ?thesis
    by (simp add: pcs board_of_def list_update_append)
qed

lemma mk_state_cursor: "(mk_state pcs cur)\<lparr>topOfTheDeck := i\<rparr> = mk_state pcs i"
  by (simp add: mk_state_def)

lemma wf_cards_length: "wf_cards pcs cur \<Longrightarrow> length pcs \<le> CARDS_IN_DECK"
  by (simp add: wf_cards_def)

lemma first_state_mk:
  assumes "wf_cards pcs cur"
  shows "first_state (mk_state pcs cur) =
     Return (case unused pcs 0 of
               None \<Rightarrow> None
             | Some i \<Rightarrow>
                Some (mk_state (pcs @ [\<lparr>rotation = 0, position = length pcs, card_ptr = Some i\<rparr>]) i))"
proof -
  note len = wf_cards_length [OF assms]
  have start: "(replicate_state (mk_state pcs cur))\<lparr>topOfTheDeck := 0\<rparr> = mk_state pcs 0"
    by (simp add: replicate_state_mk [OF len] mk_state_cursor)
  show ?thesis
  proof (cases "unused pcs 0")
    case None
    then have "addNewCard (mk_state pcs 0) = Return (False, mk_state pcs 0)"
      by (simp add: addNewCard_def nextFromDeck_mk [OF len])
    with None show ?thesis
      by (simp add: first_state_def start)
  next
    case (Some i)
    then have room: "length pcs < CARDS_IN_DECK"
      using unused_Some [OF Some] wf_cards_room [OF assms] by blast
    then have "Suc (length pcs) mod 256 = Suc (length pcs)"
      by (simp add: CARDS_IN_DECK_9)
    then have "addNewCard (mk_state pcs 0) =
       Return (True, mk_state (pcs @ [\<lparr>rotation = 0, position = length pcs, card_ptr = Some i\<rparr>]) i)"
      using Some room
      by (simp add: addNewCard_def nextFromDeck_mk [OF len] Let_def)
         (simp add: mk_state_def board_of_append)
    with Some show ?thesis
      by (simp add: first_state_def start)
  qed
qed

lemma getLastAdded_mk:
  assumes "pcs \<noteq> []" "length pcs \<le> CARDS_IN_DECK"
  shows "getLastAdded (mk_state pcs cur) = Return (length pcs - 1, Some (last pcs))"
proof -
  from assms have "0 < length pcs" "length pcs \<le> 9"
    by (simp_all add: CARDS_IN_DECK_9)
  then have "(length pcs + 255) mod 256 = length pcs - 1"
    by (cases "length pcs") simp_all
  moreover have "length pcs - 1 < CARDS_IN_DECK"
    using \<open>0 < length pcs\<close> assms(2) by linarith
  ultimately show ?thesis
    using board_of_last [OF assms(1)]
    by (simp add: getLastAdded_def Let_def mk_state_def)
qed

lemma next_state_mk:
  assumes "wf_cards pcs cur" "pcs \<noteq> []"
  shows "next_state (mk_state pcs cur) =
     Return (if rotation (last pcs) < 2
             then Some (mk_state (butlast pcs @ [(last pcs)\<lparr>rotation := rotation (last pcs) + 1\<rparr>]) cur)
             else case unused pcs cur of
                    None \<Rightarrow> None
                  | Some i \<Rightarrow>
                     Some (mk_state (butlast pcs @ [(last pcs)\<lparr>card_ptr := Some i, rotation := 0\<rparr>]) i))"
proof -
  note len = wf_cards_length [OF assms(1)]
  note last = getLastAdded_mk [OF assms(2) len]
  have len': "length (butlast pcs @ [x]) = length pcs" for x :: PlayedCard
    using assms(2) by simp
  have upd: "(mk_state pcs c)\<lparr>cardsOnBoard := (board_of pcs)[length pcs - Suc 0 := Some x]\<rparr>
       = mk_state (butlast pcs @ [x]) c" for c x
    using board_of_update_last [OF assms(2), of x] len' [of x] by (simp add: mk_state_def)
  have same: "(mk_state pcs cur)\<lparr>cardsOnBoard := (board_of pcs)[length pcs - Suc 0 := Some (last pcs)]\<rparr>
       = mk_state pcs cur"
    using upd [where c = cur and x = "last pcs"] assms(2) by simp
  have board: "cardsOnBoard (mk_state pcs c) = board_of pcs" for c
    by (simp add: mk_state_def)
  show ?thesis
  proof (cases "rotation (last pcs) < 2")
    case True
    then have "rotate_card (last pcs) = (True, (last pcs)\<lparr>rotation := rotation (last pcs) + 1\<rparr>)"
      by (simp add: rotate_card_def)
    with True show ?thesis
      by (simp add: next_state_def replicate_state_mk [OF len] last board upd)
  next
    case False
    then have rot: "rotate_card (last pcs) = (False, last pcs)"
      by (simp add: rotate_card_def)
    show ?thesis
    proof (cases "unused pcs cur")
      case None
      then have "replaceCard (mk_state pcs cur) (length pcs - 1) = (False, mk_state pcs cur)"
        by (simp add: replaceCard_def nextFromDeck_mk [OF len])
      with False None show ?thesis
        by (simp add: next_state_def replicate_state_mk [OF len] last board rot same)
    next
      case (Some i)
      then have "replaceCard (mk_state pcs cur) (length pcs - 1) =
         (True, mk_state (butlast pcs @ [(last pcs)\<lparr>card_ptr := Some i, rotation := 0\<rparr>]) i)"
        by (simp add: replaceCard_def nextFromDeck_mk [OF len] board board_of_last [OF assms(2)] upd)
      with False Some show ?thesis
        by (simp add: next_state_def replicate_state_mk [OF len] last board rot same)
    qed
  qed
qed

lemma wf_cards_snoc:
  "wf_cards (ys @ [y]) cur \<longleftrightarrow>
     length ys < CARDS_IN_DECK \<and> map position ys = [0..<length ys] \<and> position y = length ys \<and>
     list_all (\<lambda>pc. rotation pc \<le> 2 \<and> holds_card pc) ys \<and> rotation y \<le> 2 \<and> holds_card y \<and>
     distinct (map card_ptr ys) \<and> card_ptr y \<notin> set (map card_ptr ys) \<and>
     card_ptr y = Some cur"
  by (auto simp: wf_cards_def)

lemma wf_cards_first:
  assumes "wf_cards pcs cur" "unused pcs 0 = Some i"
  shows "wf_cards (pcs @ [\<lparr>rotation = 0, position = length pcs, card_ptr = Some i\<rparr>]) i"
proof -
  from unused_Some [OF assms(2)]
  have i: "i < CARDS_IN_DECK" "Some i \<notin> set (map card_ptr pcs)"
    by simp_all
  from wf_cards_room [OF assms(1) i] have "length pcs < CARDS_IN_DECK" .
  with assms(1) i show ?thesis
    unfolding wf_cards_snoc by (simp add: wf_cards_def holds_card_def)
qed

lemma wf_cards_rotate:
  assumes "wf_cards pcs cur" "pcs \<noteq> []" "rotation (last pcs) < 2"
  shows "wf_cards (butlast pcs @ [(last pcs)\<lparr>rotation := rotation (last pcs) + 1\<rparr>]) cur"
proof -
  from assms(2) obtain ys y where pcs: "pcs = ys @ [y]"
    by (metis append_butlast_last_id)
  with assms(1,3) show ?thesis
    by (auto simp: wf_cards_snoc holds_card_def)
qed

lemma wf_cards_replace:
  assumes "wf_cards pcs cur" "pcs \<noteq> []" "unused pcs cur = Some i"
  shows "wf_cards (butlast pcs @ [(last pcs)\<lparr>card_ptr := Some i, rotation := 0\<rparr>]) i"
proof -
  from assms(2) obtain ys y where pcs: "pcs = ys @ [y]"
    by (metis append_butlast_last_id)
  from unused_Some [OF assms(3)]
  have i: "i < CARDS_IN_DECK" "Some i \<notin> set (map card_ptr pcs)"
    by simp_all
  with assms(1) show ?thesis
    by (auto simp: pcs wf_cards_snoc holds_card_def)
qed

lemma empty_state_mk: "empty_state = mk_state [] 0"
  by (simp add: empty_state_def mk_state_def board_of_def)

lemma wf_state_empty: "wf_state empty_state"
  unfolding empty_state_mk by (rule wf_state_mk) (simp add: wf_cards_def)

lemma next_state_nil: "next_state (mk_state [] cur) = Fault"
  by (simp add: next_state_def replicate_state_def getLastAdded_def CARDS_IN_DECK_9 mk_state_def
      board_of_def Let_def)

lemma wf_state_first:
  assumes "wf_state s" "first_state s = Return (Some t)"
  shows "wf_state t \<and> nextOnBoard t = nextOnBoard s + 1"
proof -
  from assms(1) obtain pcs cur where s: "s = mk_state pcs cur" and wf: "wf_cards pcs cur"
    by (rule wf_state_cases)
  from assms(2) obtain i where i: "unused pcs 0 = Some i"
    and t: "t = mk_state (pcs @ [\<lparr>rotation = 0, position = length pcs, card_ptr = Some i\<rparr>]) i"
    unfolding s first_state_mk [OF wf] by (auto split: option.splits)
  from wf_cards_first [OF wf i] show ?thesis
    unfolding t s by (simp add: wf_state_mk) (simp add: mk_state_def)
qed

lemma wf_state_next:
  assumes "wf_state s" "next_state s = Return (Some t)"
  shows "wf_state t \<and> nextOnBoard t = nextOnBoard s \<and> chain_rank t < chain_rank s"
proof -
  from assms(1) obtain pcs cur where s: "s = mk_state pcs cur" and wf: "wf_cards pcs cur"
    by (rule wf_state_cases)
  from assms(2) have ne: "pcs \<noteq> []"
    unfolding s using next_state_nil by auto
  then obtain ys y where pcs: "pcs = ys @ [y]"
    by (metis append_butlast_last_id)
  from wf have y: "rotation y \<le> 2" "card_ptr y = Some cur" "holds_card y"
    by (simp_all add: pcs wf_cards_snoc)
  then have cur: "cur < CARDS_IN_DECK"
    by (simp add: holds_card_def)
  have rank: "chain_rank (mk_state (zs @ [z]) c) = 3 * (CARDS_IN_DECK - c) - rotation z" for zs z c
    by (simp add: chain_rank_def placed_mk) (simp add: mk_state_def)
  show ?thesis
  proof (cases "rotation (last pcs) < 2")
    case True
    with assms(2) have t: "t = mk_state (butlast pcs @ [(last pcs)\<lparr>rotation := rotation (last pcs) + 1\<rparr>]) cur"
      unfolding s next_state_mk [OF wf ne] by simp
    have "chain_rank t < chain_rank s"
      using True cur unfolding t s by (simp add: pcs rank)
    moreover have "nextOnBoard t = nextOnBoard s"
      unfolding t s by (simp add: pcs mk_state_def)
    ultimately show ?thesis
      using wf_cards_rotate [OF wf ne True] unfolding t by (simp add: wf_state_mk)
  next
    case False
    with assms(2) obtain i where i: "unused pcs cur = Some i"
      and t: "t = mk_state (butlast pcs @ [(last pcs)\<lparr>card_ptr := Some i, rotation := 0\<rparr>]) i"
      unfolding s next_state_mk [OF wf ne] by (auto split: option.splits)
    from unused_Some [OF i] y(2) have "cur < i" "i < CARDS_IN_DECK"
      by (auto simp: pcs le_less)
    with y(1) have "chain_rank t < chain_rank s"
      unfolding t s by (simp add: pcs rank)
    moreover have "nextOnBoard t = nextOnBoard s"
      unfolding t s by (simp add: pcs mk_state_def)
    ultimately show ?thesis
      using wf_cards_replace [OF wf ne i] unfolding t by (simp add: wf_state_mk)
  qed
qed

lemma reachable_wf: "reachable s \<Longrightarrow> wf_state s"
proof (induction rule: reachable.induct)
  case reachable_empty
  show ?case by (rule wf_state_empty)
next
  case (reachable_first s t)
  with wf_state_first show ?case by blast
next
  case (reachable_next s t)
  with wf_state_next show ?case by blast
qed

subsection \<open>A bound that is enough\<close>

lemma solve_Suc_None:
  assumes "solve (Suc n) s = None"
  shows "\<exists>newstate. first_state s = Return newstate \<and> solve_loop n newstate = None"
  using assms
  by (simp split: result.splits bool.splits option.splits if_splits)

lemma solve_loop_Suc_None:
  assumes "solve_loop (Suc n) (Some t) = None"
  shows "solve n t = None \<or> (\<exists>t1. next_state t = Return t1 \<and> solve_loop n t1 = None)"
  using assms
  by (simp split: result.splits option.splits)

lemma wf_state_bound: "wf_state s \<Longrightarrow> nextOnBoard s \<le> 9"
  by (erule wf_state_cases) (simp add: wf_cards_def mk_state_def CARDS_IN_DECK_9)

lemma chain_rank_bound: "chain_rank s \<le> 27"
  by (simp add: chain_rank_def CARDS_IN_DECK_9)

lemma solve_fuel:
  "(\<forall>s. wf_state s \<and> 30 * (10 - nextOnBoard s) \<le> n \<longrightarrow> solve n s \<noteq> None) \<and>
   (\<forall>t. wf_state t \<and> 30 * (10 - nextOnBoard t) + chain_rank t + 1 \<le> n \<longrightarrow>
        solve_loop n (Some t) \<noteq> None)"
proof (induction n)
  case 0
  show ?case
  proof (intro conjI allI impI)
    fix s assume "wf_state s \<and> 30 * (10 - nextOnBoard s) \<le> 0"
    with wf_state_bound [of s] show "solve 0 s \<noteq> None" by simp
  next
    fix t assume "wf_state t \<and> 30 * (10 - nextOnBoard t) + chain_rank t + 1 \<le> 0"
    then show "solve_loop 0 (Some t) \<noteq> None" by simp
  qed
next
  case (Suc n)
  show ?case
  proof (intro conjI allI impI)
    fix s assume "wf_state s \<and> 30 * (10 - nextOnBoard s) \<le> Suc n"
    then have wf: "wf_state s" and fuel: "30 * (10 - nextOnBoard s) \<le> Suc n"
      by simp_all
    show "solve (Suc n) s \<noteq> None"
    proof
      assume "solve (Suc n) s = None"
      from solve_Suc_None [OF this] obtain newstate where
        first: "first_state s = Return newstate" and loop: "solve_loop n newstate = None"
        by blast
      from fuel wf_state_bound [OF wf] have n: "29 \<le> n" by arith
      show False
      proof (cases newstate)
        case None
        with loop n show False by (cases n) simp_all
      next
        case (Some t)
        with first wf wf_state_first [of s t]
        have t: "wf_state t" "nextOnBoard t = nextOnBoard s + 1" by simp_all
        from wf_state_bound [OF t(1)] t(2) fuel chain_rank_bound [of t]
        have "30 * (10 - nextOnBoard t) + chain_rank t + 1 \<le> n" by arith
        with Suc t(1) loop Some show False by blast
      qed
    qed
  next
    fix t assume "wf_state t \<and> 30 * (10 - nextOnBoard t) + chain_rank t + 1 \<le> Suc n"
    then have wf: "wf_state t" and fuel: "30 * (10 - nextOnBoard t) + chain_rank t + 1 \<le> Suc n"
      by simp_all
    show "solve_loop (Suc n) (Some t) \<noteq> None"
    proof
      assume "solve_loop (Suc n) (Some t) = None"
      from solve_loop_Suc_None [OF this]
      consider "solve n t = None"
        | t1 where "next_state t = Return t1" "solve_loop n t1 = None"
        by auto
      then show False
      proof cases
        case 1
        from fuel have "30 * (10 - nextOnBoard t) \<le> n" by arith
        with Suc wf 1 show False by blast
      next
        case 2
        from fuel wf_state_bound [OF wf] have n: "29 \<le> n" by arith
        show False
        proof (cases t1)
          case None
          with 2 n show False by (cases n) simp_all
        next
          case (Some u)
          with 2 wf wf_state_next [of t u]
          have u: "wf_state u" "nextOnBoard u = nextOnBoard t" "chain_rank u < chain_rank t"
            by simp_all
          with fuel have "30 * (10 - nextOnBoard u) + chain_rank u + 1 \<le> n" by arith
          with Suc u(1) 2 Some show False by blast
        qed
      qed
    qed
  qed
qed

subsection \<open>The checks on boards of the reachable shape\<close>

lemma board_of_nth: "i < length pcs \<Longrightarrow> board_of pcs ! i = Some (pcs ! i)"
  by (simp add: board_of_def nth_append)

lemma board_of_None:
  "length pcs \<le> i \<Longrightarrow> i < CARDS_IN_DECK \<Longrightarrow> board_of pcs ! i = None"
  by (simp add: board_of_def nth_append)

lemma board_of_Some:
  assumes "board_of pcs ! i = Some pc" "i < CARDS_IN_DECK"
  shows "i < length pcs \<and> pc = pcs ! i"
proof (cases "i < length pcs")
  case True
  with assms(1) show ?thesis by (simp add: board_of_nth)
next
  case False
  with assms show ?thesis by (simp add: board_of_None)
qed

lemma wf_cards_nth:
  assumes "wf_cards pcs cur" "i < length pcs"
  shows "position (pcs ! i) = i \<and> (\<exists>c < CARDS_IN_DECK. card_ptr (pcs ! i) = Some c)"
proof -
  from assms have "map position pcs ! i = [0..<length pcs] ! i"
    by (simp add: wf_cards_def)
  with assms(2) have "position (pcs ! i) = i"
    by simp
  moreover from assms have "holds_card (pcs ! i)"
    by (simp add: wf_cards_def list_all_length)
  ultimately show ?thesis
    by (auto simp: holds_card_def split: option.splits)
qed

lemma NEIGHBORMAP_row_shape:
  assumes "row \<in> set NEIGHBORMAP"
  obtains a b c where "row = [a, b, c]" "a < CARDS_IN_DECK" "b < CARDS_IN_DECK"
  using assms unfolding NEIGHBORMAP_rows CARDS_IN_DECK_9
  by (elim disjE) simp_all

lemma isSolved_rows_wf:
  assumes "wf_cards pcs cur" "set rows \<subseteq> set NEIGHBORMAP"
  shows "\<exists>ok. isSolved_rows rows (mk_state pcs cur) partial = Return ok"
  using assms(2)
proof (induction rows)
  case Nil
  show ?case by auto
next
  case (Cons row rows)
  then obtain ok where rest: "isSolved_rows rows (mk_state pcs cur) partial = Return ok"
    by auto
  from Cons.prems obtain a b c where row: "row = [a, b, c]" "a < CARDS_IN_DECK" "b < CARDS_IN_DECK"
    and mem: "[a, b, c] \<in> set NEIGHBORMAP"
    by (metis NEIGHBORMAP_row_shape list.set_intros(1) subsetD)
  have board: "cardsOnBoard (mk_state pcs cur) = board_of pcs"
    by (simp add: mk_state_def)
  show ?case
  proof (cases "board_of pcs ! a")
    case None
    with rest show ?thesis
      by (auto simp: row board NMAP_FIRST_def)
  next
    case c1: (Some c1)
    show ?thesis
    proof (cases "board_of pcs ! b")
      case None
      with rest c1 show ?thesis
        by (auto simp: row board NMAP_FIRST_def NMAP_SECOND_def)
    next
      case c2: (Some c2)
      from board_of_Some [OF c1 row(2)] wf_cards_nth [OF assms(1), of a]
      obtain i where p: "position c1 = a" "card_ptr c1 = Some i" "i < CARDS_IN_DECK"
        by auto
      from board_of_Some [OF c2 row(3)] wf_cards_nth [OF assms(1), of b]
      obtain j where q: "position c2 = b" "card_ptr c2 = Some j" "j < CARDS_IN_DECK"
        by auto
      from matchesNeighbor_row [OF mem p(1) q(1) p(2) q(2) p(3) q(3)]
      obtain m where "matchesNeighbor c1 c2 = Return m"
        by blast
      with rest c1 c2 show ?thesis
        by (auto simp: row board NMAP_FIRST_def NMAP_SECOND_def)
    qed
  qed
qed

lemma isSolved_wf:
  assumes "wf_state s"
  shows "\<exists>ok. isSolved s partial = Return ok"
proof -
  from assms obtain pcs cur where "s = mk_state pcs cur" "wf_cards pcs cur"
    by (rule wf_state_cases)
  then show ?thesis
    unfolding isSolved_def take_NEIGHBORMAP using isSolved_rows_wf [of pcs cur NEIGHBORMAP partial]
    by simp
qed

lemma isSolved_rows_full:
  assumes "isSolved_rows rows s False = Return True" "row \<in> set rows"
  shows "cardsOnBoard s ! (row ! NMAP_FIRST) \<noteq> None \<and> cardsOnBoard s ! (row ! NMAP_SECOND) \<noteq> None"
  using assms
proof (induction rows)
  case Nil
  then show ?case by simp
next
  case (Cons r rows)
  from Cons.prems(1) have here:
    "cardsOnBoard s ! (r ! NMAP_FIRST) \<noteq> None \<and> cardsOnBoard s ! (r ! NMAP_SECOND) \<noteq> None"
    and rest: "isSolved_rows rows s False = Return True"
    by (auto split: option.splits result.splits if_splits)
  with Cons.IH Cons.prems(2) show ?case
    by auto
qed

lemma isSolved_full:
  assumes "wf_state s" "isSolved s False = Return True"
  shows "nextOnBoard s = CARDS_IN_DECK"
proof -
  from assms(1) obtain pcs cur where s: "s = mk_state pcs cur" and wf: "wf_cards pcs cur"
    by (rule wf_state_cases)
  have "[5, 8, 0] \<in> set NEIGHBORMAP"
    by (simp add: NEIGHBORMAP_rows)
  with assms(2) isSolved_rows_full [of NEIGHBORMAP s "[5, 8, 0]"]
  have "cardsOnBoard s ! 8 \<noteq> None"
    by (simp add: isSolved_def take_NEIGHBORMAP NMAP_SECOND_def)
  then have "board_of pcs ! 8 \<noteq> None"
    by (simp add: s mk_state_def)
  with board_of_None [of pcs 8] have "8 < length pcs"
    by (auto simp: CARDS_IN_DECK_9 not_le [symmetric])
  with wf_cards_length [OF wf] show ?thesis
    by (simp add: s mk_state_def CARDS_IN_DECK_9)
qed

subsection \<open>Every printed line is a solution\<close>

lemma output_name_full:
  assumes "wf_cards pcs cur" "length pcs = CARDS_IN_DECK" "i < CARDS_IN_DECK"
  shows "output_name (mk_state pcs cur) i =
     Return (card_name_at (mk_state pcs cur) (PRINTORDER ! i) @
             (if i < CARDS_IN_DECK - 1 then '','' else []))"
proof -
  have "PRINTORDER ! i < length pcs"
    using assms(2,3) unfolding CARDS_IN_DECK_9 PRINTORDER_def
    by (auto simp: less_Suc_eq numeral_eq_Suc)
  from wf_cards_nth [OF assms(1) this] board_of_nth [OF this]
  show ?thesis
    by (auto simp: output_name_def card_name_at_def mk_state_def)
qed

lemma output_state_full:
  assumes "wf_state s" "nextOnBoard s = CARDS_IN_DECK"
  shows "output_state s = Return (solution_line s)"
proof -
  from assms(1) obtain pcs cur where s: "s = mk_state pcs cur" and wf: "wf_cards pcs cur"
    by (rule wf_state_cases)
  from assms(2) have len: "length pcs = CARDS_IN_DECK"
    by (simp add: s mk_state_def)
  have name: "output_name s i =
     Return (card_name_at s (PRINTORDER ! i) @ (if i < 8 then '','' else []))" if "i < 9" for i
    using output_name_full [OF wf len, of i] that by (simp add: s CARDS_IN_DECK_9)
  have "output_loop s [0, 1, 2, 3, 4, 5, 6, 7, 8] = Return (join_commas (printed_names s))"
    by (simp add: name printed_names_def PRINTORDER_def)
  then show ?thesis
    by (simp add: output_state_def CARDS_IN_DECK_9 upt_9 solution_line_def)
qed

lemma first_state_wf:
  assumes "wf_state s"
  shows "\<exists>newstate. first_state s = Return newstate"
proof -
  from assms obtain pcs cur where "s = mk_state pcs cur" "wf_cards pcs cur"
    by (rule wf_state_cases)
  then show ?thesis
    by (simp add: first_state_mk)
qed

lemma next_state_wf:
  assumes "wf_state s" "0 < nextOnBoard s"
  shows "\<exists>newstate. next_state s = Return newstate"
proof -
  from assms(1) obtain pcs cur where s: "s = mk_state pcs cur" and wf: "wf_cards pcs cur"
    by (rule wf_state_cases)
  from assms(2) have "pcs \<noteq> []"
    by (auto simp: s mk_state_def)
  then show ?thesis
    by (simp add: s next_state_mk [OF wf])
qed

lemma sound_nil: "sound (Return [])"
  unfolding sound_def by (rule exI [of _ "[]"]) simp

lemma sound_append:
  assumes "sound (Return a)" "sound (Return b)"
  shows "sound (Return (a @ b))"
proof -
  from assms obtain xs ys where
    "a = concat (map solution_line xs)" "list_all solution xs"
    "b = concat (map solution_line ys)" "list_all solution ys"
    unfolding sound_def by auto
  then have "a @ b = concat (map solution_line (xs @ ys)) \<and> list_all solution (xs @ ys)"
    by simp
  then show ?thesis
    unfolding sound_def by blast
qed

lemma sound_Return: "sound r \<Longrightarrow> \<exists>txt. r = Return txt"
  unfolding sound_def by blast

lemma own_line_sound:
  assumes "wf_state s" "isSolved s False = Return solved"
  shows "\<exists>line. (if solved then output_state s else Return []) = Return line \<and> sound (Return line)"
proof (cases solved)
  case True
  with assms have sol: "solution s"
    by (simp add: solution_def)
  from True assms have "output_state s = Return (solution_line s)"
    by (simp add: output_state_full isSolved_full)
  moreover have "sound (Return (solution_line s))"
    unfolding sound_def using sol by (intro exI [of _ "[s]"]) simp
  ultimately show ?thesis
    using True by simp
next
  case False
  then show ?thesis
    by (simp add: sound_nil)
qed

lemma solve_sound:
  "(\<forall>s r. wf_state s \<and> solve n s = Some r \<longrightarrow> sound r) \<and>
   (\<forall>t r. wf_state t \<and> 0 < nextOnBoard t \<and> solve_loop n (Some t) = Some r \<longrightarrow> sound r)"
proof (induction n)
  case 0
  show ?case by simp
next
  case (Suc n)
  have loop_None: "sound r" if "solve_loop n None = Some r" for r
    using that by (cases n) (auto simp: sound_nil)
  show ?case
  proof (intro conjI allI impI)
    fix s r assume "wf_state s \<and> solve (Suc n) s = Some r"
    then have wf: "wf_state s" and run: "solve (Suc n) s = Some r"
      by simp_all
    from isSolved_wf [OF wf] obtain partial_ok where p: "isSolved s True = Return partial_ok"
      by blast
    show "sound r"
    proof (cases partial_ok)
      case False
      with p run show ?thesis
        by (auto simp: sound_nil)
    next
      case True
      from isSolved_wf [OF wf] obtain solved where f: "isSolved s False = Return solved"
        by blast
      from own_line_sound [OF wf f] obtain line where
        line: "(if solved then output_state s else Return []) = Return line" "sound (Return line)"
        by blast
      from first_state_wf [OF wf] obtain newstate where first: "first_state s = Return newstate"
        by blast
      from run p True f line(1) first obtain r1 where
        loop: "solve_loop n newstate = Some r1"
        by (auto split: option.splits)
      have "sound r1"
      proof (cases newstate)
        case None
        with loop show ?thesis by (simp add: loop_None)
      next
        case (Some t)
        with wf_state_first [OF wf, of t] first have "wf_state t" "0 < nextOnBoard t"
          by simp_all
        with Suc loop Some show ?thesis by blast
      qed
      then obtain out where r1: "r1 = Return out"
        using sound_Return by blast
      with run p True f line(1) first loop have "r = Return (line @ out)"
        by auto
      with sound_append [OF line(2)] \<open>sound r1\<close> r1 show ?thesis
        by simp
    qed
  next
    fix t r assume "wf_state t \<and> 0 < nextOnBoard t \<and> solve_loop (Suc n) (Some t) = Some r"
    then have wf: "wf_state t" and pos: "0 < nextOnBoard t"
      and run: "solve_loop (Suc n) (Some t) = Some r"
      by simp_all
    from run obtain r1 where inner: "solve n t = Some r1"
      by (auto split: option.splits)
    with Suc wf have "sound r1" by blast
    then obtain out where r1: "r1 = Return out"
      using sound_Return by blast
    from next_state_wf [OF wf pos] obtain newstate where nxt: "next_state t = Return newstate"
      by blast
    from run inner r1 nxt obtain r2 where loop: "solve_loop n newstate = Some r2"
      by (auto split: option.splits)
    have "sound r2"
    proof (cases newstate)
      case None
      with loop show ?thesis by (simp add: loop_None)
    next
      case (Some u)
      with wf_state_next [OF wf, of u] nxt pos have "wf_state u" "0 < nextOnBoard u"
        by simp_all
      with Suc loop Some show ?thesis by blast
    qed
    then obtain out1 where r2: "r2 = Return out1"
      using sound_Return by blast
    with run inner r1 nxt loop have "r = Return (out @ out1)"
      by auto
    with sound_append [of out out1] \<open>sound r1\<close> \<open>sound r2\<close> r1 r2 show "sound r"
      by simp
  qed
qed

subsection \<open>Some line is printed\<close>

lemma emits_solved:
  assumes "isSolved s True = Return True" "isSolved s False = Return True"
    and "output_state s = Return line" "line \<noteq> []"
  shows "emits s"
  unfolding emits_def
proof (intro allI impI)
  fix n out assume run: "solve n s = Some (Return out)"
  then obtain m where n: "n = Suc m"
    by (cases n) simp_all
  from run assms(1-3) obtain rest where "out = line @ rest"
    unfolding n by (auto split: result.splits option.splits)
  with assms(4) show "out \<noteq> []"
    by simp
qed

lemma solve_loop_emits:
  assumes "advance k t = Some u" "emits u" "solve_loop n (Some t) = Some (Return out)"
  shows "out \<noteq> []"
  using assms
proof (induction k arbitrary: t n out)
  case 0
  then have u: "u = t" by simp
  from "0.prems"(3) obtain m where n: "n = Suc m"
    by (cases n) simp_all
  from "0.prems"(3) obtain a b where "solve m t = Some (Return a)" "out = a @ b"
    unfolding n by (auto split: result.splits option.splits)
  with "0.prems"(2) show ?case
    unfolding u emits_def by auto
next
  case (Suc k)
  from Suc.prems(1) obtain t1 where nxt: "next_state t = Return (Some t1)"
    and adv: "advance k t1 = Some u"
    by (auto split: result.splits option.splits)
  from Suc.prems(3) obtain m where n: "n = Suc m"
    by (cases n) simp_all
  from Suc.prems(3) nxt obtain a b where "solve_loop m (Some t1) = Some (Return b)" "out = a @ b"
    unfolding n by (auto split: result.splits option.splits)
  with Suc.IH [OF adv Suc.prems(2)] show ?case
    by simp
qed

lemma descend_emits:
  assumes "descend k s = Some u" "emits u"
  shows "emits s"
  unfolding emits_def
proof (intro allI impI)
  fix n out assume run: "solve n s = Some (Return out)"
  from assms(1) obtain t where p: "isSolved s True = Return True"
    and first: "first_state s = Return (Some t)" and adv: "advance k t = Some u"
    unfolding descend_def by (auto split: if_splits result.splits option.splits)
  from run obtain m where n: "n = Suc m"
    by (cases n) simp_all
  from run p first obtain a b where "solve_loop m (Some t) = Some (Return b)" "out = a @ b"
    unfolding n by (auto split: result.splits option.splits if_splits bool.splits)
  with solve_loop_emits [OF adv assms(2)] show "out \<noteq> []"
    by simp
qed

lemma follow_emits:
  assumes "follow ks s = Some u" "emits u"
  shows "emits s"
  using assms
proof (induction ks arbitrary: s)
  case Nil
  then show ?case by simp
next
  case (Cons k ks)
  from Cons.prems(1) obtain v where "descend k s = Some v" "follow ks v = Some u"
    by (auto split: option.splits)
  with Cons.IH Cons.prems(2) descend_emits show ?case
    by blast
qed

lemma emits_empty_state: "emits empty_state"
proof -
  let ?final = "\<lparr>nextOnBoard = 9, topOfTheDeck = 2,
     cardsOnBoard =
       [Some \<lparr>rotation = 1, position = 0, card_ptr = Some 1\<rparr>,
        Some \<lparr>rotation = 0, position = 1, card_ptr = Some 0\<rparr>,
        Some \<lparr>rotation = 0, position = 2, card_ptr = Some 6\<rparr>,
        Some \<lparr>rotation = 2, position = 3, card_ptr = Some 5\<rparr>,
        Some \<lparr>rotation = 1, position = 4, card_ptr = Some 4\<rparr>,
        Some \<lparr>rotation = 2, position = 5, card_ptr = Some 3\<rparr>,
        Some \<lparr>rotation = 2, position = 6, card_ptr = Some 8\<rparr>,
        Some \<lparr>rotation = 2, position = 7, card_ptr = Some 7\<rparr>,
        Some \<lparr>rotation = 2, position = 8, card_ptr = Some 2\<rparr>]\<rparr>"
  have path: "follow [4, 0, 12, 11, 7, 5, 8, 5, 2] empty_state = Some ?final"
    by code_simp
  have "isSolved ?final True = Return True" "isSolved ?final False = Return True"
    "output_state ?final = Return (''[P9,P7,P2,P1,P8,P6,P5,P4,P3]'' @ [CHR 10])"
    by code_simp+
  then have "emits ?final"
    by (rule emits_solved) simp
  with path show ?thesis
    by (rule follow_emits)
qed

subsection \<open>The run from the empty board\<close>

lemma Deck_names:
  "map name Deck = [''P1'', ''P2'', ''P3'', ''P4'', ''P5'', ''P6'', ''P7'', ''P8'', ''P9'']"
  by (simp add: Deck_def)

lemma solution_names:
  assumes "solution b"
  shows "distinct (printed_names b) \<and> set (printed_names b) = set (map name Deck)"
proof -
  from assms have wfs: "wf_state b" and full: "nextOnBoard b = CARDS_IN_DECK"
    by (simp_all add: solution_def isSolved_full)
  from wfs obtain pcs cur where b: "b = mk_state pcs cur" and wf: "wf_cards pcs cur"
    by (rule wf_state_cases)
  from full have len: "length pcs = 9"
    by (simp add: b mk_state_def CARDS_IN_DECK_9)
  define cs where "cs = map (\<lambda>pc. the (card_ptr pc)) pcs"
  have lcs: "length cs = 9"
    by (simp add: cs_def len)
  have held: "\<exists>c < 9. card_ptr (pcs ! k) = Some c" if "k < 9" for k
    using wf_cards_nth [OF wf, of k] that len by (simp add: CARDS_IN_DECK_9)
  have ptr: "card_ptr (pcs ! k) = Some (cs ! k)" if "k < 9" for k
    using held [OF that] that len by (auto simp: cs_def)
  have bound: "cs ! k < 9" if "k < 9" for k
    using held [OF that] ptr [OF that] by auto
  have inj_cs: "i = j" if "cs ! i = cs ! j" "i < 9" "j < 9" for i j
  proof -
    from wf have "distinct (map card_ptr pcs)"
      by (simp add: wf_cards_def)
    moreover have "map card_ptr pcs ! i = map card_ptr pcs ! j"
      using that ptr [of i] ptr [of j] len by simp
    ultimately show ?thesis
      using that(2,3) len nth_eq_iff_index_eq [of "map card_ptr pcs" i j] by simp
  qed
  have dcs: "distinct cs"
    unfolding distinct_conv_nth using inj_cs lcs by auto
  have "set cs \<subseteq> {..<9}"
    using bound lcs by (auto simp: in_set_conv_nth)
  moreover have "card (set cs) = card {..<9::nat}"
    using dcs lcs by (simp add: distinct_card)
  ultimately have scs: "set cs = {..<9}"
    by (intro card_subset_eq) simp_all
  have at: "card_name_at b k = name (Deck ! (cs ! k))" if "k < 9" for k
    using that len ptr [OF that] by (simp add: card_name_at_def b mk_state_def board_of_nth)
  have "printed_names b = map (\<lambda>k. name (Deck ! (cs ! k))) PRINTORDER"
    unfolding printed_names_def by (rule map_cong) (auto simp: PRINTORDER_def at)
  then have names: "printed_names b = map (\<lambda>c. map name Deck ! c) (map (nth cs) PRINTORDER)"
    using bound by (simp add: PRINTORDER_def CARDS_IN_DECK_def [symmetric] CARDS_IN_DECK_9)
  have dpo: "distinct PRINTORDER" and spo: "set PRINTORDER = {..<9}"
    by (auto simp: PRINTORDER_def)
  have dps: "distinct (map (nth cs) PRINTORDER)"
    unfolding distinct_map using dpo inj_cs by (auto simp: inj_on_def spo)
  have "set (map (nth cs) PRINTORDER) = nth cs ` {..<length cs}"
    by (simp add: spo lcs)
  also have "\<dots> = set cs"
    by (auto simp: set_conv_nth)
  finally have sps: "set (map (nth cs) PRINTORDER) = {..<9}"
    using scs by simp
  have dn: "distinct (map name Deck)" and ln: "length (map name Deck) = 9"
    by (simp_all add: Deck_names)
  have "inj_on (\<lambda>c. map name Deck ! c) {..<9}"
    unfolding inj_on_def by (metis dn ln lessThan_iff nth_eq_iff_index_eq)
  then have "distinct (map (\<lambda>c. map name Deck ! c) (map (nth cs) PRINTORDER))"
    using dps sps by (subst distinct_map) simp
  then have "distinct (printed_names b)"
    unfolding names .
  moreover have "set (printed_names b) = set (map name Deck)"
  proof -
    have "set (printed_names b) = nth (map name Deck) ` set (map (nth cs) PRINTORDER)"
      unfolding names by (simp only: set_map)
    also have "\<dots> = nth (map name Deck) ` {0..<length (map name Deck)}"
      by (simp only: sps ln atLeast0LessThan)
    also have "\<dots> = set (map name Deck)"
      using nth_image [of "length (map name Deck)" "map name Deck"] by simp
    finally show ?thesis .
  qed
  ultimately show ?thesis
    by simp
qed

lemma solve_returns:
  assumes "wf_state s" "300 \<le> n"
  shows "\<exists>out. solve n s = Some (Return out) \<and> sound (Return out)"
proof -
  have "30 * (10 - nextOnBoard s) \<le> n"
    using assms(2) by simp
  with assms(1) solve_fuel [of n] obtain r where r: "solve n s = Some r"
    by blast
  with assms(1) solve_sound [of n] have "sound r"
    by blast
  with r sound_Return [of r] show ?thesis
    by auto
qed

text \<open>
  On a board of the reachable shape the full check of the code computes the consistency
  by the labels: the placement in slot \<open>i\<close> has position \<open>i\<close>, so the edge that
  \<^verbatim>\<open>getCommonEdge\<close> finds from the two positions is the edge of the row at hand.
\<close>

lemma labels_fit_None: "labels_fit x None = False"
  by (cases x) simp_all

lemma isSolved_rows_labels:
  assumes "wf_cards pcs cur" "set rows \<subseteq> set NEIGHBORMAP"
  shows "isSolved_rows rows (mk_state pcs cur) False =
           Return (consistent_rows rows (mk_state pcs cur))"
  using assms(2)
proof (induction rows)
  case Nil
  show ?case by (simp add: consistent_rows_def)
next
  case (Cons row rows)
  then have rest: "isSolved_rows rows (mk_state pcs cur) False =
      Return (consistent_rows rows (mk_state pcs cur))"
    by simp
  from Cons.prems obtain a b c where row: "row = [a, b, c]" "a < CARDS_IN_DECK" "b < CARDS_IN_DECK"
    and mem: "[a, b, c] \<in> set NEIGHBORMAP"
    by (metis NEIGHBORMAP_row_shape list.set_intros(1) subsetD)
  have board: "cardsOnBoard (mk_state pcs cur) = board_of pcs"
    by (simp add: mk_state_def)
  have cons: "consistent_rows (row # rows) (mk_state pcs cur) \<longleftrightarrow>
      labels_fit (edge_label (mk_state pcs cur) a c) (edge_label (mk_state pcs cur) b c) \<and>
      consistent_rows rows (mk_state pcs cur)"
    by (simp add: consistent_rows_def row)
  show ?case
  proof (cases "board_of pcs ! a")
    case None
    then have "edge_label (mk_state pcs cur) a c = None"
      by (simp add: edge_label_def board)
    with None show ?thesis
      unfolding cons by (simp add: row board NMAP_FIRST_def)
  next
    case c1: (Some c1)
    show ?thesis
    proof (cases "board_of pcs ! b")
      case None
      then have "edge_label (mk_state pcs cur) b c = None"
        by (simp add: edge_label_def board)
      with None c1 show ?thesis
        unfolding cons by (simp add: row board NMAP_FIRST_def NMAP_SECOND_def labels_fit_None)
    next
      case c2: (Some c2)
      from board_of_Some [OF c1 row(2)] wf_cards_nth [OF assms(1), of a]
      obtain i where p: "position c1 = a" "card_ptr c1 = Some i" "i < CARDS_IN_DECK"
        by auto
      from board_of_Some [OF c2 row(3)] wf_cards_nth [OF assms(1), of b]
      obtain j where q: "position c2 = b" "card_ptr c2 = Some j" "j < CARDS_IN_DECK"
        by auto
      have la: "edge_label (mk_state pcs cur) a c =
          Some (edges (Deck ! i) ! ((c + rotation c1) mod 3))"
        using c1 p by (simp add: edge_label_def board EDGES_IN_CARD_def)
      have lb: "edge_label (mk_state pcs cur) b c =
          Some (edges (Deck ! j) ! ((c + rotation c2) mod 3))"
        using c2 q by (simp add: edge_label_def board EDGES_IN_CARD_def)
      have m: "matchesNeighbor c1 c2 =
          Return (labels_fit (edge_label (mk_state pcs cur) a c)
                             (edge_label (mk_state pcs cur) b c))"
        unfolding la lb matchesNeighbor_row [OF mem p(1) q(1) p(2) q(2) p(3) q(3)]
        by (simp add: Let_def)
      show ?thesis
        unfolding cons using rest c1 c2 m
        by (simp add: row board NMAP_FIRST_def NMAP_SECOND_def)
    qed
  qed
qed

lemma isSolved_labels:
  assumes "wf_state s"
  shows "isSolved s False = Return (consistent_rows NEIGHBORMAP s)"
proof -
  from assms obtain pcs cur where "s = mk_state pcs cur" "wf_cards pcs cur"
    by (rule wf_state_cases)
  then show ?thesis
    unfolding isSolved_def take_NEIGHBORMAP using isSolved_rows_labels [of pcs cur NEIGHBORMAP]
    by simp
qed

lemma solution_consistent:
  assumes "solution b"
  shows "consistent_rows NEIGHBORMAP b"
  using assms isSolved_labels [of b] by (simp add: solution_def)

lemma solution_rows:
  assumes "solution b" "[x, y, c] \<in> set NEIGHBORMAP"
  shows "\<exists>p q i j. cardsOnBoard b ! x = Some p \<and> cardsOnBoard b ! y = Some q \<and>
           position p = x \<and> position q = y \<and>
           card_ptr p = Some i \<and> card_ptr q = Some j \<and>
           i < CARDS_IN_DECK \<and> j < CARDS_IN_DECK \<and>
           (let e1 = edges (Deck ! i) ! ((c + rotation p) mod 3);
                e2 = edges (Deck ! j) ! ((c + rotation q) mod 3)
            in e1 ! 0 = e2 ! 0 \<and> e1 ! 1 \<noteq> e2 ! 1)"
proof -
  from assms(1) have "wf_state b"
    by (simp add: solution_def)
  then obtain pcs cur where b: "b = mk_state pcs cur" and wf: "wf_cards pcs cur"
    by (rule wf_state_cases)
  have board: "cardsOnBoard b = board_of pcs"
    by (simp add: b mk_state_def)
  from assms(2) have xy: "x < CARDS_IN_DECK" "y < CARDS_IN_DECK"
    by (auto elim: NEIGHBORMAP_row_shape)
  from solution_consistent [OF assms(1)] assms(2)
  have fit: "labels_fit (edge_label b x c) (edge_label b y c)"
    by (auto simp: consistent_rows_def list_all_iff)
  then obtain e1 e2 where e: "edge_label b x c = Some e1" "edge_label b y c = Some e2"
    "e1 ! 0 = e2 ! 0 \<and> e1 ! 1 \<noteq> e2 ! 1"
    by (cases "edge_label b x c"; cases "edge_label b y c") simp_all
  from e(1) obtain p i where p: "cardsOnBoard b ! x = Some p" "card_ptr p = Some i"
    "i < CARDS_IN_DECK" "e1 = edges (Deck ! i) ! ((c + rotation p) mod 3)"
    by (auto simp: edge_label_def EDGES_IN_CARD_def split: option.splits if_splits)
  from e(2) obtain q j where q: "cardsOnBoard b ! y = Some q" "card_ptr q = Some j"
    "j < CARDS_IN_DECK" "e2 = edges (Deck ! j) ! ((c + rotation q) mod 3)"
    by (auto simp: edge_label_def EDGES_IN_CARD_def split: option.splits if_splits)
  from p(1) board_of_Some [of pcs x p] xy(1) wf_cards_nth [OF wf, of x]
  have "position p = x"
    by (simp add: board)
  moreover from q(1) board_of_Some [of pcs y q] xy(2) wf_cards_nth [OF wf, of y]
  have "position q = y"
    by (simp add: board)
  ultimately show ?thesis
    using p q e(3) by (simp add: Let_def)
qed

text \<open>
  Claim C1. The run of \<^verbatim>\<open>solve\<close> from the empty board returns, and what it printed is the
  concatenation of the lines of a non-empty list of boards. For every board of the list:
  the full check \<^verbatim>\<open>isSolved(false)\<close> succeeds on it; the board is consistent by the labels
  for the nine rows of the table, that is, for every row \<open>[x, y, c]\<close> the slots \<open>x\<close> and \<open>y\<close>
  hold placements at these positions with catalog cards \<open>i\<close> and \<open>j\<close>, and label
  \<open>(c + rotation) mod 3\<close> of card \<open>i\<close> and label \<open>(c + rotation) mod 3\<close> of card \<open>j\<close> have the
  same first character and different second characters; its line is an opening bracket,
  its printed names joined by commas, a closing bracket and a newline; its printed names
  are the names of the cards in slots 6, 2, 0, 1, 7, 3, 4, 5, 8, in this order; and these
  nine names are pairwise distinct and are exactly \<open>P1\<close> to \<open>P9\<close>.
\<close>

theorem solve_emits_solutions:
  "\<exists>boards. boards \<noteq> [] \<and>
     solve 300 empty_state = Some (Return (concat (map solution_line boards))) \<and>
     list_all (\<lambda>b. isSolved b False = Return True \<and>
                    consistent_rows
                      [[0, 1, 0], [0, 2, 1], [0, 6, 2], [1, 5, 2], [2, 3, 2],
                       [3, 4, 0], [3, 7, 1], [4, 5, 1], [5, 8, 0]] b \<and>
                    (\<forall>x y c. [x, y, c] \<in> set NEIGHBORMAP \<longrightarrow>
                       (\<exists>p q i j.
                          cardsOnBoard b ! x = Some p \<and> cardsOnBoard b ! y = Some q \<and>
                          position p = x \<and> position q = y \<and>
                          card_ptr p = Some i \<and> card_ptr q = Some j \<and>
                          i < CARDS_IN_DECK \<and> j < CARDS_IN_DECK \<and>
                          (let e1 = edges (Deck ! i) ! ((c + rotation p) mod 3);
                               e2 = edges (Deck ! j) ! ((c + rotation q) mod 3)
                           in e1 ! 0 = e2 ! 0 \<and> e1 ! 1 \<noteq> e2 ! 1))) \<and>
                    solution_line b = ''['' @ join_commas (printed_names b) @ '']'' @ [CHR 10] \<and>
                    printed_names b = map (card_name_at b) [6, 2, 0, 1, 7, 3, 4, 5, 8] \<and>
                    distinct (printed_names b) \<and>
                    set (printed_names b) =
                      {''P1'', ''P2'', ''P3'', ''P4'', ''P5'', ''P6'', ''P7'', ''P8'', ''P9''})
       boards"
proof -
  from solve_returns [OF wf_state_empty, of 300] obtain out where
    run: "solve 300 empty_state = Some (Return out)" and "sound (Return out)"
    by auto
  then obtain boards where out: "out = concat (map solution_line boards)"
    and sols: "list_all solution boards"
    unfolding sound_def by auto
  from emits_empty_state run have "out \<noteq> []"
    unfolding emits_def by blast
  with out have "boards \<noteq> []"
    by auto
  moreover have "list_all (\<lambda>b. isSolved b False = Return True \<and>
                    consistent_rows
                      [[0, 1, 0], [0, 2, 1], [0, 6, 2], [1, 5, 2], [2, 3, 2],
                       [3, 4, 0], [3, 7, 1], [4, 5, 1], [5, 8, 0]] b \<and>
                    (\<forall>x y c. [x, y, c] \<in> set NEIGHBORMAP \<longrightarrow>
                       (\<exists>p q i j.
                          cardsOnBoard b ! x = Some p \<and> cardsOnBoard b ! y = Some q \<and>
                          position p = x \<and> position q = y \<and>
                          card_ptr p = Some i \<and> card_ptr q = Some j \<and>
                          i < CARDS_IN_DECK \<and> j < CARDS_IN_DECK \<and>
                          (let e1 = edges (Deck ! i) ! ((c + rotation p) mod 3);
                               e2 = edges (Deck ! j) ! ((c + rotation q) mod 3)
                           in e1 ! 0 = e2 ! 0 \<and> e1 ! 1 \<noteq> e2 ! 1))) \<and>
                    solution_line b = ''['' @ join_commas (printed_names b) @ '']'' @ [CHR 10] \<and>
                    printed_names b = map (card_name_at b) [6, 2, 0, 1, 7, 3, 4, 5, 8] \<and>
                    distinct (printed_names b) \<and>
                    set (printed_names b) =
                      {''P1'', ''P2'', ''P3'', ''P4'', ''P5'', ''P6'', ''P7'', ''P8'', ''P9''})
       boards"
    unfolding list_all_iff
  proof
    fix b assume "b \<in> set boards"
    with sols have sol: "solution b"
      by (simp add: list_all_iff)
    from solution_names [OF sol] have names: "distinct (printed_names b)"
      "set (printed_names b) = {''P1'', ''P2'', ''P3'', ''P4'', ''P5'', ''P6'', ''P7'', ''P8'', ''P9''}"
      unfolding Deck_names by simp_all
    from sol have solved: "isSolved b False = Return True"
      by (simp add: solution_def)
    from solution_consistent [OF sol] have table: "consistent_rows
        [[0, 1, 0], [0, 2, 1], [0, 6, 2], [1, 5, 2], [2, 3, 2],
         [3, 4, 0], [3, 7, 1], [4, 5, 1], [5, 8, 0]] b"
      by (simp add: NEIGHBORMAP_def)
    have rows: "\<forall>x y c. [x, y, c] \<in> set NEIGHBORMAP \<longrightarrow>
                       (\<exists>p q i j.
                          cardsOnBoard b ! x = Some p \<and> cardsOnBoard b ! y = Some q \<and>
                          position p = x \<and> position q = y \<and>
                          card_ptr p = Some i \<and> card_ptr q = Some j \<and>
                          i < CARDS_IN_DECK \<and> j < CARDS_IN_DECK \<and>
                          (let e1 = edges (Deck ! i) ! ((c + rotation p) mod 3);
                               e2 = edges (Deck ! j) ! ((c + rotation q) mod 3)
                           in e1 ! 0 = e2 ! 0 \<and> e1 ! 1 \<noteq> e2 ! 1))"
      using solution_rows [OF sol] by blast
    have line: "solution_line b = ''['' @ join_commas (printed_names b) @ '']'' @ [CHR 10]"
      by (simp add: solution_line_def)
    have order: "printed_names b = map (card_name_at b) [6, 2, 0, 1, 7, 3, 4, 5, 8]"
      by (simp add: printed_names_def PRINTORDER_def)
    from solved table rows line order names
    show "isSolved b False = Return True \<and>
                    consistent_rows
                      [[0, 1, 0], [0, 2, 1], [0, 6, 2], [1, 5, 2], [2, 3, 2],
                       [3, 4, 0], [3, 7, 1], [4, 5, 1], [5, 8, 0]] b \<and>
                    (\<forall>x y c. [x, y, c] \<in> set NEIGHBORMAP \<longrightarrow>
                       (\<exists>p q i j.
                          cardsOnBoard b ! x = Some p \<and> cardsOnBoard b ! y = Some q \<and>
                          position p = x \<and> position q = y \<and>
                          card_ptr p = Some i \<and> card_ptr q = Some j \<and>
                          i < CARDS_IN_DECK \<and> j < CARDS_IN_DECK \<and>
                          (let e1 = edges (Deck ! i) ! ((c + rotation p) mod 3);
                               e2 = edges (Deck ! j) ! ((c + rotation q) mod 3)
                           in e1 ! 0 = e2 ! 0 \<and> e1 ! 1 \<noteq> e2 ! 1))) \<and>
                    solution_line b = ''['' @ join_commas (printed_names b) @ '']'' @ [CHR 10] \<and>
                    printed_names b = map (card_name_at b) [6, 2, 0, 1, 7, 3, 4, 5, 8] \<and>
                    distinct (printed_names b) \<and>
                    set (printed_names b) =
                      {''P1'', ''P2'', ''P3'', ''P4'', ''P5'', ''P6'', ''P7'', ''P8'', ''P9''}"
      by (intro conjI)
  qed
  ultimately show ?thesis
    using run out by blast
qed

theorem solve_emits_solutions_witness:
  "\<exists>b rest. solve 300 empty_state = Some (Return (solution_line b @ rest)) \<and>
     solution_line b \<noteq> [] \<and>
     isSolved b False = Return True \<and>
     consistent_rows NEIGHBORMAP b \<and>
     labels_fit (edge_label b 0 0) (edge_label b 1 0) \<and>
     labels_fit (edge_label b 5 0) (edge_label b 8 0) \<and>
     set (printed_names b) =
       {''P1'', ''P2'', ''P3'', ''P4'', ''P5'', ''P6'', ''P7'', ''P8'', ''P9''}"
proof -
  from solve_emits_solutions obtain boards where ne: "boards \<noteq> []"
    and run: "solve 300 empty_state = Some (Return (concat (map solution_line boards)))"
    and all: "list_all (\<lambda>b. isSolved b False = Return True \<and>
                    consistent_rows
                      [[0, 1, 0], [0, 2, 1], [0, 6, 2], [1, 5, 2], [2, 3, 2],
                       [3, 4, 0], [3, 7, 1], [4, 5, 1], [5, 8, 0]] b \<and>
                    (\<forall>x y c. [x, y, c] \<in> set NEIGHBORMAP \<longrightarrow>
                       (\<exists>p q i j.
                          cardsOnBoard b ! x = Some p \<and> cardsOnBoard b ! y = Some q \<and>
                          position p = x \<and> position q = y \<and>
                          card_ptr p = Some i \<and> card_ptr q = Some j \<and>
                          i < CARDS_IN_DECK \<and> j < CARDS_IN_DECK \<and>
                          (let e1 = edges (Deck ! i) ! ((c + rotation p) mod 3);
                               e2 = edges (Deck ! j) ! ((c + rotation q) mod 3)
                           in e1 ! 0 = e2 ! 0 \<and> e1 ! 1 \<noteq> e2 ! 1))) \<and>
                    solution_line b = ''['' @ join_commas (printed_names b) @ '']'' @ [CHR 10] \<and>
                    printed_names b = map (card_name_at b) [6, 2, 0, 1, 7, 3, 4, 5, 8] \<and>
                    distinct (printed_names b) \<and>
                    set (printed_names b) =
                      {''P1'', ''P2'', ''P3'', ''P4'', ''P5'', ''P6'', ''P7'', ''P8'', ''P9''})
       boards"
    by blast
  from ne obtain b bs where boards: "boards = b # bs"
    by (cases boards) auto
  from all have solved: "isSolved b False = Return True"
    and table: "consistent_rows
        [[0, 1, 0], [0, 2, 1], [0, 6, 2], [1, 5, 2], [2, 3, 2],
         [3, 4, 0], [3, 7, 1], [4, 5, 1], [5, 8, 0]] b"
    and names: "set (printed_names b) =
       {''P1'', ''P2'', ''P3'', ''P4'', ''P5'', ''P6'', ''P7'', ''P8'', ''P9''}"
    unfolding boards list.pred_inject by blast+
  from table have cons: "consistent_rows NEIGHBORMAP b"
    by (simp add: NEIGHBORMAP_def)
  from table have first: "labels_fit (edge_label b 0 0) (edge_label b 1 0)"
    and last: "labels_fit (edge_label b 5 0) (edge_label b 8 0)"
    by (simp_all add: consistent_rows_def)
  have line: "solution_line b \<noteq> []"
    by (simp add: solution_line_def)
  from run have "solve 300 empty_state =
      Some (Return (solution_line b @ concat (map solution_line bs)))"
    by (simp add: boards)
  with line solved cons first last names show ?thesis
    by blast
qed

text \<open>
  The consistency by the labels is a real condition: the first board that the search
  prints satisfies it, and the same board with the card in slot 8 turned once does not.
\<close>

lemma consistent_rows_example:
  "consistent_rows NEIGHBORMAP
     \<lparr>nextOnBoard = 9, topOfTheDeck = 2,
      cardsOnBoard =
        [Some \<lparr>rotation = 1, position = 0, card_ptr = Some 1\<rparr>,
         Some \<lparr>rotation = 0, position = 1, card_ptr = Some 0\<rparr>,
         Some \<lparr>rotation = 0, position = 2, card_ptr = Some 6\<rparr>,
         Some \<lparr>rotation = 2, position = 3, card_ptr = Some 5\<rparr>,
         Some \<lparr>rotation = 1, position = 4, card_ptr = Some 4\<rparr>,
         Some \<lparr>rotation = 2, position = 5, card_ptr = Some 3\<rparr>,
         Some \<lparr>rotation = 2, position = 6, card_ptr = Some 8\<rparr>,
         Some \<lparr>rotation = 2, position = 7, card_ptr = Some 7\<rparr>,
         Some \<lparr>rotation = 2, position = 8, card_ptr = Some 2\<rparr>]\<rparr> \<and>
   \<not> consistent_rows NEIGHBORMAP
     \<lparr>nextOnBoard = 9, topOfTheDeck = 2,
      cardsOnBoard =
        [Some \<lparr>rotation = 1, position = 0, card_ptr = Some 1\<rparr>,
         Some \<lparr>rotation = 0, position = 1, card_ptr = Some 0\<rparr>,
         Some \<lparr>rotation = 0, position = 2, card_ptr = Some 6\<rparr>,
         Some \<lparr>rotation = 2, position = 3, card_ptr = Some 5\<rparr>,
         Some \<lparr>rotation = 1, position = 4, card_ptr = Some 4\<rparr>,
         Some \<lparr>rotation = 2, position = 5, card_ptr = Some 3\<rparr>,
         Some \<lparr>rotation = 2, position = 6, card_ptr = Some 8\<rparr>,
         Some \<lparr>rotation = 2, position = 7, card_ptr = Some 7\<rparr>,
         Some \<lparr>rotation = 0, position = 8, card_ptr = Some 2\<rparr>]\<rparr>"
  by code_simp

subsection \<open>The bound does not matter\<close>

lemma solve_Suc_cases:
  "(\<exists>r0. \<forall>n. solve (Suc n) s = Some r0) \<or>
   (\<exists>line newstate. \<forall>n. solve (Suc n) s =
      (case solve_loop n newstate of
         None \<Rightarrow> None
       | Some (Return out) \<Rightarrow> Some (Return (line @ out))
       | Some (Exit out) \<Rightarrow> Some (Exit (line @ out))
       | Some Fault \<Rightarrow> Some Fault))"
proof (cases "isSolved s True")
  case (Return ok)
  note p = this
  show ?thesis
  proof (cases ok)
    case False
    with p show ?thesis by simp
  next
    case True
    note ok = this
    show ?thesis
    proof (cases "isSolved s False")
      case (Return solved)
      note f = this
      show ?thesis
      proof (cases "if solved then output_state s else Return []")
        case (Return line)
        note l = this
        show ?thesis
        proof (cases "first_state s")
          case (Return newstate)
          with p ok f l show ?thesis
            by (intro disjI2 exI [of _ line] exI [of _ newstate]) simp
        next
          case (Exit x)
          with p ok f l show ?thesis by simp
        next
          case Fault
          with p ok f l show ?thesis by simp
        qed
      next
        case (Exit x)
        with p ok f show ?thesis by simp
      next
        case Fault
        with p ok f show ?thesis by simp
      qed
    next
      case (Exit x)
      with p ok show ?thesis by simp
    next
      case Fault
      with p ok show ?thesis by simp
    qed
  qed
next
  case (Exit x)
  then show ?thesis by simp
next
  case Fault
  then show ?thesis by simp
qed

lemma solve_Suc_eq:
  assumes "\<And>t r. solve_loop n t = Some r \<Longrightarrow> solve_loop m t = Some r"
    and "solve (Suc n) s = Some r"
  shows "solve (Suc m) s = Some r"
  using solve_Suc_cases [of s]
proof (elim disjE exE)
  fix r0 assume "\<forall>n. solve (Suc n) s = Some r0"
  with assms(2) show ?thesis by simp
next
  fix line newstate
  assume eq: "\<forall>n. solve (Suc n) s =
      (case solve_loop n newstate of
         None \<Rightarrow> None
       | Some (Return out) \<Rightarrow> Some (Return (line @ out))
       | Some (Exit out) \<Rightarrow> Some (Exit (line @ out))
       | Some Fault \<Rightarrow> Some Fault)"
  with assms(2) obtain r1 where loop: "solve_loop n newstate = Some r1"
    by (cases "solve_loop n newstate") simp_all
  from assms(1) [OF loop] loop assms(2) eq show ?thesis
    by simp
qed

lemma solve_loop_Suc_eq:
  assumes "\<And>s r. solve n s = Some r \<Longrightarrow> solve m s = Some r"
    and "\<And>t r. solve_loop n t = Some r \<Longrightarrow> solve_loop m t = Some r"
    and "solve_loop (Suc n) t = Some r"
  shows "solve_loop (Suc m) t = Some r"
proof (cases t)
  case None
  with assms(3) show ?thesis by simp
next
  case (Some u)
  with assms(3) obtain r1 where inner: "solve n u = Some r1"
    by (cases "solve n u") simp_all
  note inner' = assms(1) [OF inner]
  show ?thesis
  proof (cases r1)
    case (Return out)
    note r1 = this
    show ?thesis
    proof (cases "next_state u")
      case (Return newstate)
      with assms(3) inner r1 Some obtain r2 where loop: "solve_loop n newstate = Some r2"
        by (cases "solve_loop n newstate") simp_all
      from assms(2) [OF loop] loop assms(3) inner inner' r1 Return Some show ?thesis
        by auto
    next
      case (Exit x)
      with assms(3) inner inner' r1 Some show ?thesis by auto
    next
      case Fault
      with assms(3) inner inner' r1 Some show ?thesis by auto
    qed
  next
    case (Exit x)
    with assms(3) inner inner' Some show ?thesis by auto
  next
    case Fault
    with assms(3) inner inner' Some show ?thesis by auto
  qed
qed

lemma solve_mono_Suc:
  "(\<forall>s r. solve n s = Some r \<longrightarrow> solve (Suc n) s = Some r) \<and>
   (\<forall>t r. solve_loop n t = Some r \<longrightarrow> solve_loop (Suc n) t = Some r)"
proof (induction n)
  case 0
  show ?case by simp
next
  case (Suc n)
  show ?case
  proof (intro conjI allI impI)
    fix s r assume "solve (Suc n) s = Some r"
    with Suc show "solve (Suc (Suc n)) s = Some r"
      by (intro solve_Suc_eq [of n "Suc n"]) blast+
  next
    fix t r assume "solve_loop (Suc n) t = Some r"
    with Suc show "solve_loop (Suc (Suc n)) t = Some r"
      by (intro solve_loop_Suc_eq [of n "Suc n"]) blast+
  qed
qed

lemma solve_mono:
  assumes "solve n s = Some r" "n \<le> m"
  shows "solve m s = Some r"
  using assms(2,1)
proof (induction m rule: dec_induct)
  case base
  then show ?case .
next
  case (step k)
  with solve_mono_Suc [of k] show ?case by blast
qed

subsection \<open>Invariant and termination\<close>

lemma wf_state_slots:
  assumes "wf_state s"
  shows "length (cardsOnBoard s) = CARDS_IN_DECK \<and> nextOnBoard s \<le> CARDS_IN_DECK \<and>
     (\<forall>i < CARDS_IN_DECK. (cardsOnBoard s ! i \<noteq> None) = (i < nextOnBoard s)) \<and>
     (\<forall>i < nextOnBoard s. \<exists>pc c. cardsOnBoard s ! i = Some pc \<and> position pc = i \<and>
         card_ptr pc = Some c \<and> c < CARDS_IN_DECK) \<and>
     distinct (map card_ptr (placed s)) \<and>
     replicate_state s = s"
proof -
  from assms obtain pcs cur where s: "s = mk_state pcs cur" and wf: "wf_cards pcs cur"
    by (rule wf_state_cases)
  note len = wf_cards_length [OF wf]
  have board: "cardsOnBoard s = board_of pcs" and n: "nextOnBoard s = length pcs"
    by (simp_all add: s mk_state_def)
  have "(board_of pcs ! i \<noteq> None) = (i < length pcs)" if "i < CARDS_IN_DECK" for i
    using that board_of_nth [of i pcs] board_of_None [of pcs i] by (cases "i < length pcs") simp_all
  moreover have "\<exists>pc c. board_of pcs ! i = Some pc \<and> position pc = i \<and>
         card_ptr pc = Some c \<and> c < CARDS_IN_DECK" if "i < length pcs" for i
    using wf_cards_nth [OF wf that] board_of_nth [OF that] by auto
  moreover have "distinct (map card_ptr (placed s))"
    using wf by (simp add: s placed_mk wf_cards_def)
  ultimately show ?thesis
    using len by (simp add: board n length_board_of) (simp add: s replicate_state_mk)
qed

text \<open>
  Claim C10. In every state reachable from the empty board through \<^verbatim>\<open>first\<close> and \<^verbatim>\<open>next\<close>, the
  board has nine slots, slot \<open>i\<close> holds a placement exactly when \<open>i < nextOnBoard\<close>, the
  placement in slot \<open>i\<close> has position \<open>i\<close> and holds a catalog card, and the cards placed are
  pairwise distinct as pointers. On such a state \<^verbatim>\<open>replicate\<close> returns an equal state. The
  copy relies on the prefix shape: for a board whose slot 0 is \<^verbatim>\<open>NULL\<close> and whose slot 1 is
  filled, the copy stops at slot 0 and has no placement at all.
\<close>

theorem reachable_prefix:
  assumes "reachable s"
  shows "length (cardsOnBoard s) = CARDS_IN_DECK \<and> nextOnBoard s \<le> CARDS_IN_DECK \<and>
     (\<forall>i < CARDS_IN_DECK. (cardsOnBoard s ! i \<noteq> None) = (i < nextOnBoard s)) \<and>
     (\<forall>i < nextOnBoard s. \<exists>pc c. cardsOnBoard s ! i = Some pc \<and> position pc = i \<and>
         card_ptr pc = Some c \<and> c < CARDS_IN_DECK) \<and>
     distinct (map card_ptr (placed s)) \<and>
     replicate_state s = s \<and>
     cardsOnBoard (replicate_state
        \<lparr>nextOnBoard = 2, topOfTheDeck = 1,
         cardsOnBoard = [None, Some \<lparr>rotation = 0, position = 1, card_ptr = Some 1\<rparr>,
                         None, None, None, None, None, None, None]\<rparr>)
       = [None, None, None, None, None, None, None, None, None]"
proof -
  have "cardsOnBoard (replicate_state
        \<lparr>nextOnBoard = 2, topOfTheDeck = 1,
         cardsOnBoard = [None, Some \<lparr>rotation = 0, position = 1, card_ptr = Some 1\<rparr>,
                         None, None, None, None, None, None, None]\<rparr>)
       = [None, None, None, None, None, None, None, None, None]"
    by (simp add: replicate_state_def CARDS_IN_DECK_9 numeral_eq_Suc)
  with wf_state_slots [OF reachable_wf [OF assms]] show ?thesis
    by simp
qed

lemma reachable_one:
  "reachable \<lparr>nextOnBoard = 1, topOfTheDeck = 0,
      cardsOnBoard = [Some \<lparr>rotation = 0, position = 0, card_ptr = Some 0\<rparr>,
                      None, None, None, None, None, None, None, None]\<rparr>"
proof -
  have "first_state empty_state =
    Return (Some \<lparr>nextOnBoard = 1, topOfTheDeck = 0,
      cardsOnBoard = [Some \<lparr>rotation = 0, position = 0, card_ptr = Some 0\<rparr>,
                      None, None, None, None, None, None, None, None]\<rparr>)"
    by code_simp
  with reachable_empty show ?thesis
    by (rule reachable_first)
qed

lemma reachable_two:
  "reachable \<lparr>nextOnBoard = 1, topOfTheDeck = 0,
      cardsOnBoard = [Some \<lparr>rotation = 1, position = 0, card_ptr = Some 0\<rparr>,
                      None, None, None, None, None, None, None, None]\<rparr>"
proof -
  have "next_state \<lparr>nextOnBoard = 1, topOfTheDeck = 0,
      cardsOnBoard = [Some \<lparr>rotation = 0, position = 0, card_ptr = Some 0\<rparr>,
                      None, None, None, None, None, None, None, None]\<rparr> =
    Return (Some \<lparr>nextOnBoard = 1, topOfTheDeck = 0,
      cardsOnBoard = [Some \<lparr>rotation = 1, position = 0, card_ptr = Some 0\<rparr>,
                      None, None, None, None, None, None, None, None]\<rparr>)"
    by code_simp
  with reachable_one show ?thesis
    by (rule reachable_next)
qed

theorem reachable_prefix_witness:
  "reachable \<lparr>nextOnBoard = 1, topOfTheDeck = 0,
      cardsOnBoard = [Some \<lparr>rotation = 1, position = 0, card_ptr = Some 0\<rparr>,
                      None, None, None, None, None, None, None, None]\<rparr> \<and>
   replicate_state \<lparr>nextOnBoard = 1, topOfTheDeck = 0,
      cardsOnBoard = [Some \<lparr>rotation = 1, position = 0, card_ptr = Some 0\<rparr>,
                      None, None, None, None, None, None, None, None]\<rparr> =
     \<lparr>nextOnBoard = 1, topOfTheDeck = 0,
      cardsOnBoard = [Some \<lparr>rotation = 1, position = 0, card_ptr = Some 0\<rparr>,
                      None, None, None, None, None, None, None, None]\<rparr>"
  using reachable_two reachable_prefix [OF reachable_two] by simp

text \<open>
  Claim C9. For every state reachable from the empty board, \<^verbatim>\<open>solve\<close> returns to its caller:
  with any bound of at least 300 on nested calls and loop rounds the run comes back, and
  with the same printed text whatever the bound. The depth is finite because \<^verbatim>\<open>first\<close> raises
  \<^verbatim>\<open>nextOnBoard\<close> by one and \<^verbatim>\<open>nextOnBoard\<close> never exceeds 9; the chain of \<^verbatim>\<open>next\<close> successors is
  finite because each \<^verbatim>\<open>next\<close> keeps \<^verbatim>\<open>nextOnBoard\<close> and lowers the rank
  \<open>3 * (9 - topOfTheDeck) - rotation\<close> of the last placement, which is at most 27.
\<close>

theorem solve_terminates:
  assumes "reachable s"
  shows "(\<exists>out. \<forall>n \<ge> 300. solve n s = Some (Return out)) \<and>
     nextOnBoard s \<le> CARDS_IN_DECK \<and> chain_rank s \<le> 3 * CARDS_IN_DECK \<and>
     (\<forall>t. first_state s = Return (Some t) \<longrightarrow> nextOnBoard t = nextOnBoard s + 1) \<and>
     (\<forall>t. next_state s = Return (Some t) \<longrightarrow>
          nextOnBoard t = nextOnBoard s \<and> chain_rank t < chain_rank s)"
proof -
  note wf = reachable_wf [OF assms]
  from solve_returns [OF wf, of 300] obtain out where "solve 300 s = Some (Return out)"
    by auto
  then have "\<forall>n \<ge> 300. solve n s = Some (Return out)"
    using solve_mono by blast
  moreover have "nextOnBoard s \<le> CARDS_IN_DECK" "chain_rank s \<le> 3 * CARDS_IN_DECK"
    using wf_state_bound [OF wf] chain_rank_bound [of s] by (simp_all add: CARDS_IN_DECK_9)
  ultimately show ?thesis
    using wf_state_first [OF wf] wf_state_next [OF wf] by blast
qed

theorem solve_terminates_witness:
  "reachable \<lparr>nextOnBoard = 1, topOfTheDeck = 0,
      cardsOnBoard = [Some \<lparr>rotation = 0, position = 0, card_ptr = Some 0\<rparr>,
                      None, None, None, None, None, None, None, None]\<rparr> \<and>
   (\<exists>out. solve 300 \<lparr>nextOnBoard = 1, topOfTheDeck = 0,
      cardsOnBoard = [Some \<lparr>rotation = 0, position = 0, card_ptr = Some 0\<rparr>,
                      None, None, None, None, None, None, None, None]\<rparr> = Some (Return out))"
  using reachable_one solve_terminates [OF reachable_one] by auto

subsection \<open>What a call on the store leaves alone\<close>

lemma agree_refl: "agree L h h"
  by (simp add: agree_def)

lemma agree_trans: "agree L h h1 \<Longrightarrow> agree L h1 h2 \<Longrightarrow> agree L h h2"
  by (auto simp: agree_def)

lemma alloc_card_frame:
  assumes "alloc_card h pc = (h1, q)" "L \<le> next_free h"
  shows "agree L h h1 \<and> q = next_free h \<and> next_free h1 = Suc q \<and> states h1 = states h"
  using assms by (auto simp: alloc_card_def agree_def)

lemma write_state_frame:
  assumes "write_state h a f = Return h1" "L \<le> a"
  shows "agree L h h1 \<and> next_free h1 = next_free h \<and> played h1 = played h"
  using assms by (auto simp: write_state_def agree_def split: option.splits)

lemma write_card_frame:
  assumes "write_card h a f = Return h1" "L \<le> a"
  shows "agree L h h1 \<and> next_free h1 = next_free h \<and> states h1 = states h"
  using assms by (auto simp: write_card_def agree_def split: option.splits)

lemma owned_states: "owned L h a \<Longrightarrow> states h1 = states h \<Longrightarrow> owned L h1 a"
  by (simp add: owned_def)

lemma write_state_owned:
  assumes "write_state h a f = Return h1" "owned L h a"
    and "\<And>obj. length (obj_cardsOnBoard (f obj)) = length (obj_cardsOnBoard obj)"
    and "\<And>obj p. Some p \<in> set (obj_cardsOnBoard (f obj)) \<Longrightarrow>
            Some p \<in> set (obj_cardsOnBoard obj) \<or> L \<le> p"
  shows "owned L h1 a"
proof -
  from assms(2) obtain obj where obj: "states h a = Some obj" "L \<le> a"
    "length (obj_cardsOnBoard obj) = CARDS_IN_DECK"
    "\<forall>p. Some p \<in> set (obj_cardsOnBoard obj) \<longrightarrow> L \<le> p"
    unfolding owned_def by blast
  with assms(1) have "states h1 a = Some (f obj)"
    by (auto simp: write_state_def)
  with obj assms(3) [of obj] assms(4) [of _ obj] show ?thesis
    unfolding owned_def by auto
qed

lemma set_update_slot:
  "Some p \<in> set (xs[i := Some q]) \<Longrightarrow> Some p \<in> set xs \<or> p = q"
  by (metis insert_iff option.inject set_update_subset_insert subsetD)

lemma replicate_slots_h_frame:
  assumes "replicate_slots_h idx this ns h = Return h1" "owned L h ns" "L \<le> next_free h"
  shows "agree L h h1 \<and> owned L h1 ns \<and> L \<le> next_free h1"
  using assms
proof (induction idx arbitrary: h)
  case Nil
  then show ?case by (simp add: agree_refl)
next
  case (Cons i rest)
  show ?case
  proof (cases "\<exists>obj p pc. states h this = Some obj \<and> obj_cardsOnBoard obj ! i = Some p \<and>
      played h p = Some pc")
    case False
    with Cons.prems have "h1 = h"
      by (auto split: option.splits)
    with Cons.prems show ?thesis
      by (simp add: agree_refl)
  next
    case True
    then obtain obj p pc where rd: "states h this = Some obj" "obj_cardsOnBoard obj ! i = Some p"
      "played h p = Some pc"
      by blast
    obtain ha q where al: "alloc_card h pc = (ha, q)"
      by (cases "alloc_card h pc")
    with Cons.prems(1) rd obtain hb where
      wr: "write_state ha ns (\<lambda>obj1. obj1\<lparr>obj_cardsOnBoard := (obj_cardsOnBoard obj1)[i := Some q]\<rparr>)
             = Return hb"
      and rest: "replicate_slots_h rest this ns hb = Return h1"
      by (auto split: result.splits)
    from alloc_card_frame [OF al Cons.prems(3)]
    have a1: "agree L h ha" "q = next_free h" "next_free ha = Suc q" "states ha = states h"
      by simp_all
    from Cons.prems(2) a1(4) have o1: "owned L ha ns"
      by (rule owned_states)
    then have "L \<le> ns"
      by (simp add: owned_def)
    from write_state_frame [OF wr this]
    have a2: "agree L ha hb" "next_free hb = next_free ha"
      by simp_all
    have o2: "owned L hb ns"
      using wr o1
    proof (rule write_state_owned)
      fix obj1 :: GameStateObj and p1
      assume "Some p1 \<in> set (obj_cardsOnBoard (obj1\<lparr>obj_cardsOnBoard := (obj_cardsOnBoard obj1)[i := Some q]\<rparr>))"
      then have "Some p1 \<in> set (obj_cardsOnBoard obj1) \<or> p1 = q"
        using set_update_slot [of p1 "obj_cardsOnBoard obj1" i q] by simp
      with a1(2) Cons.prems(3) show "Some p1 \<in> set (obj_cardsOnBoard obj1) \<or> L \<le> p1"
        by auto
    qed simp
    from a2(2) a1(2,3) Cons.prems(3) have "L \<le> next_free hb"
      by simp
    from Cons.IH [OF rest o2 this] agree_trans [OF agree_trans [OF a1(1) a2(1)]]
    show ?thesis
      by blast
  qed
qed

lemma replicate_h_frame:
  assumes "replicate_h h this = Return (h1, ns)"
  shows "agree (next_free h) h h1 \<and> owned (next_free h) h1 ns \<and> next_free h \<le> next_free h1"
proof -
  let ?L = "next_free h"
  from assms obtain obj where obj: "states h this = Some obj"
    by (auto simp: replicate_h_def split: option.splits)
  obtain ha a where al: "alloc_state h = (ha, a)"
    by (cases "alloc_state h")
  with assms obj obtain hb where
    wr: "write_state ha a (\<lambda>obj1. obj1\<lparr>obj_nextOnBoard := obj_nextOnBoard obj,
                                   obj_topOfTheDeck := obj_topOfTheDeck obj\<rparr>) = Return hb"
    and loop: "replicate_slots_h [0..<CARDS_IN_DECK] this a hb = Return h1" and ns: "ns = a"
    by (auto simp: replicate_h_def split: result.splits)
  from al have a1: "agree ?L h ha" "a = ?L" "next_free ha = Suc ?L"
    by (auto simp: alloc_state_def agree_def)
  from al have o1: "owned ?L ha a"
    by (auto simp: alloc_state_def owned_def)
  from write_state_frame [OF wr, of ?L] a1(2)
  have a2: "agree ?L ha hb" "next_free hb = next_free ha"
    by simp_all
  have o2: "owned ?L hb a"
    using wr o1 by (rule write_state_owned) simp_all
  from a2(2) a1(3) have "?L \<le> next_free hb"
    by simp
  from replicate_slots_h_frame [OF loop o2 this] agree_trans [OF agree_trans [OF a1(1) a2(1)]]
  show ?thesis
    unfolding ns by blast
qed

lemma nextFromDeck_loop_h_frame:
  assumes "nextFromDeck_loop_h idx h a = Return (h1, r)" "owned L h a"
  shows "agree L h h1 \<and> owned L h1 a \<and> next_free h1 = next_free h"
  using assms
proof (induction idx)
  case Nil
  then show ?case by (simp add: agree_refl)
next
  case (Cons i rest)
  from Cons.prems(1) obtain on_board where rd: "isCardOnBoard_h h a (Some i) = Return on_board"
    by (auto split: result.splits)
  show ?case
  proof (cases on_board)
    case True
    with Cons rd show ?thesis by simp
  next
    case False
    with Cons.prems(1) rd have wr: "write_state h a (\<lambda>obj. obj\<lparr>obj_topOfTheDeck := i\<rparr>) = Return h1"
      by (auto split: result.splits)
    from Cons.prems(2) have "L \<le> a"
      by (simp add: owned_def)
    from write_state_frame [OF wr this] write_state_owned [OF wr Cons.prems(2)]
    show ?thesis by simp
  qed
qed

lemma nextFromDeck_h_frame:
  assumes "nextFromDeck_h h a = Return (h1, r)" "owned L h a"
  shows "agree L h h1 \<and> owned L h1 a \<and> next_free h1 = next_free h"
proof -
  from assms(1) obtain obj where obj: "states h a = Some obj"
    by (auto simp: nextFromDeck_h_def split: option.splits)
  show ?thesis
  proof (cases "obj_topOfTheDeck obj \<ge> CARDS_IN_DECK")
    case True
    with assms obj show ?thesis
      by (auto simp: nextFromDeck_h_def agree_refl)
  next
    case False
    with assms(1) obj
    have "nextFromDeck_loop_h [obj_topOfTheDeck obj..<CARDS_IN_DECK] h a = Return (h1, r)"
      by (simp add: nextFromDeck_h_def)
    from nextFromDeck_loop_h_frame [OF this assms(2)] show ?thesis .
  qed
qed

lemma addNewCard_h_frame:
  assumes "addNewCard_h h a = Return (h1, added)" "owned L h a" "L \<le> next_free h"
  shows "agree L h h1 \<and> owned L h1 a \<and> L \<le> next_free h1"
proof -
  from assms(1) obtain ha r where nd: "nextFromDeck_h h a = Return (ha, r)"
    by (auto simp: addNewCard_h_def split: result.splits)
  from nextFromDeck_h_frame [OF nd assms(2)]
  have a1: "agree L h ha" "owned L ha a" "next_free ha = next_free h"
    by simp_all
  show ?thesis
  proof (cases r)
    case None
    with assms(1) nd have "h1 = ha"
      by (simp add: addNewCard_h_def)
    with a1 assms(3) show ?thesis by simp
  next
    case (Some fromdeck)
    from a1(2) obtain obj where obj: "states ha a = Some obj"
      by (auto simp: owned_def)
    obtain hb q where al:
      "alloc_card ha \<lparr>rotation = 0, position = obj_nextOnBoard obj, card_ptr = Some fromdeck\<rparr> = (hb, q)"
      by (cases "alloc_card ha \<lparr>rotation = 0, position = obj_nextOnBoard obj, card_ptr = Some fromdeck\<rparr>")
    with assms(1) nd Some obj have
      wr: "write_state hb a
             (\<lambda>obj1. obj1\<lparr>obj_cardsOnBoard := (obj_cardsOnBoard obj1)[obj_nextOnBoard obj := Some q],
                           obj_nextOnBoard := (obj_nextOnBoard obj1 + 1) mod 256\<rparr>) = Return h1"
      by (auto simp: addNewCard_h_def split: if_splits result.splits)
    from a1(3) assms(3) have "L \<le> next_free ha" by simp
    from alloc_card_frame [OF al this]
    have a2: "agree L ha hb" "q = next_free ha" "next_free hb = Suc q" "states hb = states ha"
      by simp_all
    from a1(2) a2(4) have o2: "owned L hb a"
      by (rule owned_states)
    then have "L \<le> a"
      by (simp add: owned_def)
    from write_state_frame [OF wr this]
    have a3: "agree L hb h1" "next_free h1 = next_free hb"
      by simp_all
    have o3: "owned L h1 a"
      using wr o2
    proof (rule write_state_owned)
      fix obj1 :: GameStateObj and p1
      assume "Some p1 \<in> set (obj_cardsOnBoard
         (obj1\<lparr>obj_cardsOnBoard := (obj_cardsOnBoard obj1)[obj_nextOnBoard obj := Some q],
               obj_nextOnBoard := (obj_nextOnBoard obj1 + 1) mod 256\<rparr>))"
      then have "Some p1 \<in> set (obj_cardsOnBoard obj1) \<or> p1 = q"
        using set_update_slot [of p1 "obj_cardsOnBoard obj1" "obj_nextOnBoard obj" q] by simp
      with a2(2) a1(3) assms(3) show "Some p1 \<in> set (obj_cardsOnBoard obj1) \<or> L \<le> p1"
        by auto
    qed simp
    from a3(2) a2(2,3) a1(3) assms(3) have "L \<le> next_free h1"
      by simp
    with o3 agree_trans [OF agree_trans [OF a1(1) a2(1)] a3(1)] show ?thesis
      by simp
  qed
qed

lemma getLastAdded_h_owned:
  assumes "getLastAdded_h h a = Return (Some c)" "owned L h a"
  shows "L \<le> c"
proof -
  from assms(2) obtain obj where obj: "states h a = Some obj"
    "length (obj_cardsOnBoard obj) = CARDS_IN_DECK"
    "\<forall>p. Some p \<in> set (obj_cardsOnBoard obj) \<longrightarrow> L \<le> p"
    unfolding owned_def by blast
  with assms(1) have "(obj_nextOnBoard obj + 255) mod 256 < length (obj_cardsOnBoard obj)"
    "obj_cardsOnBoard obj ! ((obj_nextOnBoard obj + 255) mod 256) = Some c"
    by (auto simp: getLastAdded_h_def Let_def split: if_splits)
  then have "Some c \<in> set (obj_cardsOnBoard obj)"
    by (metis nth_mem)
  with obj(3) show ?thesis by blast
qed

lemma rotate_h_frame:
  assumes "rotate_h h c = Return (h1, rotated)" "L \<le> c" "owned L h a"
  shows "agree L h h1 \<and> owned L h1 a \<and> next_free h1 = next_free h"
proof -
  from assms(1) obtain pc where pc: "played h c = Some pc"
    by (auto simp: rotate_h_def split: option.splits)
  show ?thesis
  proof (cases "rotation pc \<ge> 2")
    case True
    with assms pc show ?thesis
      by (auto simp: rotate_h_def agree_refl)
  next
    case False
    with assms(1) pc
    have wr: "write_card h c (\<lambda>pc1. pc1\<lparr>rotation := (rotation pc1 + 1) mod 256\<rparr>) = Return h1"
      by (auto simp: rotate_h_def split: result.splits)
    from write_card_frame [OF wr assms(2)] owned_states [OF assms(3)] show ?thesis
      by simp
  qed
qed

lemma replaceCard_h_frame:
  assumes "replaceCard_h h a c = Return (h1, replaced)" "L \<le> c" "owned L h a"
  shows "agree L h h1 \<and> owned L h1 a \<and> next_free h1 = next_free h"
proof -
  from assms(1) obtain ha r where nd: "nextFromDeck_h h a = Return (ha, r)"
    by (auto simp: replaceCard_h_def split: result.splits)
  from nextFromDeck_h_frame [OF nd assms(3)]
  have a1: "agree L h ha" "owned L ha a" "next_free ha = next_free h"
    by simp_all
  show ?thesis
  proof (cases r)
    case None
    with assms(1) nd have "h1 = ha"
      by (simp add: replaceCard_h_def)
    with a1 show ?thesis by simp
  next
    case (Some fromdeck)
    with assms(1) nd
    have wr: "write_card ha c (\<lambda>pc. pc\<lparr>card_ptr := Some fromdeck, rotation := 0\<rparr>) = Return h1"
      by (auto simp: replaceCard_h_def split: result.splits)
    from write_card_frame [OF wr assms(2)] owned_states [OF a1(2)] a1(3)
      agree_trans [OF a1(1)]
    show ?thesis
      by simp
  qed
qed

lemma delete_slots_h_frame:
  assumes "delete_slots_h slots h = Return h1" "\<forall>p. Some p \<in> set slots \<longrightarrow> L \<le> p"
  shows "agree L h h1 \<and> states h1 = states h \<and> next_free h1 = next_free h"
  using assms
proof (induction slots h rule: delete_slots_h.induct)
  case (1 h)
  then show ?case by (simp add: agree_refl)
next
  case (2 rest h)
  then show ?case by simp
next
  case (3 p rest h)
  from "3.prems"(1) obtain pc where pc: "played h p = Some pc"
    and rest: "delete_slots_h rest (h\<lparr>played := (played h)(p := None)\<rparr>) = Return h1"
    by (auto split: option.splits)
  from "3.prems"(2) have "L \<le> p" by simp
  then have "agree L h (h\<lparr>played := (played h)(p := None)\<rparr>)"
    by (auto simp: agree_def)
  moreover from "3.IH" [OF pc rest] "3.prems"(2)
  have "agree L (h\<lparr>played := (played h)(p := None)\<rparr>) h1 \<and> states h1 = states h \<and>
        next_free h1 = next_free h"
    by simp
  ultimately show ?case
    using agree_trans by blast
qed

lemma delete_h_frame:
  assumes "delete_h h a = Return h1" "owned L h a"
  shows "agree L h h1"
proof -
  from assms(2) obtain obj where obj: "states h a = Some obj" "L \<le> a"
    "\<forall>p. Some p \<in> set (obj_cardsOnBoard obj) \<longrightarrow> L \<le> p"
    unfolding owned_def by blast
  with assms(1) obtain ha where
    sl: "delete_slots_h (take CARDS_IN_DECK (obj_cardsOnBoard obj)) h = Return ha"
    and h1: "h1 = ha\<lparr>states := (states ha)(a := None)\<rparr>"
    by (auto simp: delete_h_def split: result.splits)
  from obj(3) have "\<forall>p. Some p \<in> set (take CARDS_IN_DECK (obj_cardsOnBoard obj)) \<longrightarrow> L \<le> p"
    by (meson in_set_takeD)
  from delete_slots_h_frame [OF sl this] have "agree L h ha"
    by simp
  moreover from obj(2) have "agree L ha h1"
    unfolding h1 by (auto simp: agree_def)
  ultimately show ?thesis
    by (rule agree_trans)
qed

lemma first_h_frame:
  assumes "first_h h this = Return (h1, r)"
  shows "agree (next_free h) h h1 \<and> (\<forall>ns. r = Some ns \<longrightarrow> owned (next_free h) h1 ns)"
proof -
  let ?L = "next_free h"
  from assms obtain ha ns where rp: "replicate_h h this = Return (ha, ns)"
    by (auto simp: first_h_def split: result.splits)
  with assms obtain hb where wr: "write_state ha ns (\<lambda>obj. obj\<lparr>obj_topOfTheDeck := 0\<rparr>) = Return hb"
    by (auto simp: first_h_def split: result.splits)
  with assms rp obtain hc added where ad: "addNewCard_h hb ns = Return (hc, added)"
    by (auto simp: first_h_def split: result.splits)
  from replicate_h_frame [OF rp]
  have a1: "agree ?L h ha" "owned ?L ha ns" "?L \<le> next_free ha"
    by simp_all
  then have "?L \<le> ns"
    by (simp add: owned_def)
  from write_state_frame [OF wr this] write_state_owned [OF wr a1(2)] a1(3)
  have a2: "agree ?L ha hb" "owned ?L hb ns" "?L \<le> next_free hb"
    by simp_all
  from addNewCard_h_frame [OF ad a2(2,3)]
  have a3: "agree ?L hb hc" "owned ?L hc ns"
    by simp_all
  note upto = agree_trans [OF agree_trans [OF a1(1) a2(1)] a3(1)]
  show ?thesis
  proof (cases added)
    case True
    with assms rp wr ad have "h1 = hc" "r = Some ns"
      by (simp_all add: first_h_def)
    with upto a3(2) show ?thesis by simp
  next
    case False
    with assms rp wr ad have del: "delete_h hc ns = Return h1" and "r = None"
      by (auto simp: first_h_def split: result.splits)
    from delete_h_frame [OF del a3(2)] upto \<open>r = None\<close> show ?thesis
      using agree_trans by blast
  qed
qed

lemma next_h_frame:
  assumes "next_h h this = Return (h1, r)"
  shows "agree (next_free h) h h1 \<and> (\<forall>ns. r = Some ns \<longrightarrow> owned (next_free h) h1 ns)"
proof -
  let ?L = "next_free h"
  from assms obtain ha ns where rp: "replicate_h h this = Return (ha, ns)"
    by (auto simp: next_h_def split: result.splits)
  with assms obtain c where la: "getLastAdded_h ha ns = Return (Some c)"
    by (auto simp: next_h_def split: result.splits option.splits)
  with assms rp obtain hb rotated where ro: "rotate_h ha c = Return (hb, rotated)"
    by (auto simp: next_h_def split: result.splits)
  from replicate_h_frame [OF rp]
  have a1: "agree ?L h ha" "owned ?L ha ns"
    by simp_all
  from getLastAdded_h_owned [OF la a1(2)] have c: "?L \<le> c" .
  from rotate_h_frame [OF ro c a1(2)]
  have a2: "agree ?L ha hb" "owned ?L hb ns"
    by simp_all
  note upto2 = agree_trans [OF a1(1) a2(1)]
  show ?thesis
  proof (cases rotated)
    case True
    with assms rp la ro have "h1 = hb" "r = Some ns"
      by (simp_all add: next_h_def)
    with upto2 a2(2) show ?thesis by simp
  next
    case False
    with assms rp la ro obtain hc replaced where re: "replaceCard_h hb ns c = Return (hc, replaced)"
      by (auto simp: next_h_def split: result.splits)
    from replaceCard_h_frame [OF re c a2(2)]
    have a3: "agree ?L hb hc" "owned ?L hc ns"
      by simp_all
    note upto3 = agree_trans [OF upto2 a3(1)]
    show ?thesis
    proof (cases replaced)
      case True
      with assms rp la ro re False have "h1 = hc" "r = Some ns"
        by (simp_all add: next_h_def)
      with upto3 a3(2) show ?thesis by simp
    next
      case no: False
      with assms rp la ro re False have del: "delete_h hc ns = Return h1" and "r = None"
        by (auto simp: next_h_def split: result.splits)
      from delete_h_frame [OF del a3(2)] upto3 \<open>r = None\<close> show ?thesis
        using agree_trans by blast
    qed
  qed
qed

subsection \<open>Closed stores stay closed\<close>

lemma heap_ok_alloc_card:
  assumes "heap_ok h" "alloc_card h pc = (h1, q)"
  shows "heap_ok h1 \<and> q < next_free h1"
  using assms unfolding heap_ok_def alloc_card_def
  by (auto simp: less_Suc_eq split: if_splits)

lemma heap_ok_alloc_state:
  assumes "heap_ok h" "alloc_state h = (h1, a)"
  shows "heap_ok h1"
  using assms unfolding heap_ok_def alloc_state_def
  by (auto simp: less_Suc_eq split: if_splits)

lemma heap_ok_write_card:
  assumes "heap_ok h" "write_card h a f = Return h1"
  shows "heap_ok h1"
  using assms unfolding heap_ok_def write_card_def
  by (auto split: option.splits if_splits)

lemma heap_ok_write_state:
  assumes "heap_ok h" "write_state h a f = Return h1"
    and "\<And>obj. length (obj_cardsOnBoard (f obj)) = length (obj_cardsOnBoard obj)"
    and "\<And>obj p. Some p \<in> set (obj_cardsOnBoard (f obj)) \<Longrightarrow>
            Some p \<in> set (obj_cardsOnBoard obj) \<or> p < next_free h"
  shows "heap_ok h1"
proof -
  from assms(2) obtain obj where obj: "states h a = Some obj"
    and h1: "h1 = h\<lparr>states := (states h)(a \<mapsto> f obj)\<rparr>"
    by (auto simp: write_state_def split: option.splits)
  from assms(1) obj have old: "a < next_free h" "length (obj_cardsOnBoard obj) = CARDS_IN_DECK"
    "\<forall>p. Some p \<in> set (obj_cardsOnBoard obj) \<longrightarrow> p < next_free h"
    unfolding heap_ok_def by blast+
  with assms(3) [of obj] assms(4) [of _ obj]
  have new: "length (obj_cardsOnBoard (f obj)) = CARDS_IN_DECK"
    "\<forall>p. Some p \<in> set (obj_cardsOnBoard (f obj)) \<longrightarrow> p < next_free h"
    by auto
  show ?thesis
    unfolding heap_ok_def h1 using assms(1) old(1) new
    by (auto simp: heap_ok_def)
qed

lemma heap_ok_replicate_slots_h:
  assumes "replicate_slots_h idx this ns h = Return h1" "heap_ok h"
  shows "heap_ok h1"
  using assms
proof (induction idx arbitrary: h)
  case Nil
  then show ?case by simp
next
  case (Cons i rest)
  show ?case
  proof (cases "\<exists>obj p pc. states h this = Some obj \<and> obj_cardsOnBoard obj ! i = Some p \<and>
      played h p = Some pc")
    case False
    with Cons.prems have "h1 = h"
      by (auto split: option.splits)
    with Cons.prems show ?thesis
      by simp
  next
    case True
    then obtain obj p pc where rd: "states h this = Some obj" "obj_cardsOnBoard obj ! i = Some p"
      "played h p = Some pc"
      by blast
    obtain ha q where al: "alloc_card h pc = (ha, q)"
      by (cases "alloc_card h pc")
    with Cons.prems(1) rd obtain hb where
      wr: "write_state ha ns (\<lambda>obj1. obj1\<lparr>obj_cardsOnBoard := (obj_cardsOnBoard obj1)[i := Some q]\<rparr>)
             = Return hb"
      and rest: "replicate_slots_h rest this ns hb = Return h1"
      by (auto split: result.splits)
    from heap_ok_alloc_card [OF Cons.prems(2) al] have ok: "heap_ok ha" "q < next_free ha"
      by simp_all
    have "heap_ok hb"
      using ok(1) wr
    proof (rule heap_ok_write_state)
      fix obj1 :: GameStateObj and p1
      assume "Some p1 \<in> set (obj_cardsOnBoard (obj1\<lparr>obj_cardsOnBoard := (obj_cardsOnBoard obj1)[i := Some q]\<rparr>))"
      then have "Some p1 \<in> set (obj_cardsOnBoard obj1) \<or> p1 = q"
        using set_update_slot [of p1 "obj_cardsOnBoard obj1" i q] by simp
      with ok(2) show "Some p1 \<in> set (obj_cardsOnBoard obj1) \<or> p1 < next_free ha"
        by auto
    qed simp
    with Cons.IH [OF rest] show ?thesis .
  qed
qed

lemma heap_ok_replicate_h:
  assumes "replicate_h h this = Return (h1, ns)" "heap_ok h"
  shows "heap_ok h1"
proof -
  from assms obtain obj where obj: "states h this = Some obj"
    by (auto simp: replicate_h_def split: option.splits)
  obtain ha a where al: "alloc_state h = (ha, a)"
    by (cases "alloc_state h")
  with assms obj obtain hb where
    wr: "write_state ha a (\<lambda>obj1. obj1\<lparr>obj_nextOnBoard := obj_nextOnBoard obj,
                                   obj_topOfTheDeck := obj_topOfTheDeck obj\<rparr>) = Return hb"
    and loop: "replicate_slots_h [0..<CARDS_IN_DECK] this a hb = Return h1"
    by (auto simp: replicate_h_def split: result.splits)
  from heap_ok_alloc_state [OF assms(2) al] have "heap_ok ha" .
  then have "heap_ok hb"
    using wr by (rule heap_ok_write_state) simp_all
  with heap_ok_replicate_slots_h [OF loop] show ?thesis .
qed

lemma heap_ok_nextFromDeck_loop_h:
  assumes "nextFromDeck_loop_h idx h a = Return (h1, r)" "heap_ok h"
  shows "heap_ok h1"
  using assms
proof (induction idx)
  case Nil
  then show ?case by simp
next
  case (Cons i rest)
  from Cons.prems(1) obtain on_board where rd: "isCardOnBoard_h h a (Some i) = Return on_board"
    by (auto split: result.splits)
  show ?case
  proof (cases on_board)
    case True
    with Cons rd show ?thesis by simp
  next
    case False
    with Cons.prems(1) rd have wr: "write_state h a (\<lambda>obj. obj\<lparr>obj_topOfTheDeck := i\<rparr>) = Return h1"
      by (auto split: result.splits)
    show ?thesis
      using Cons.prems(2) wr by (rule heap_ok_write_state) simp_all
  qed
qed

lemma heap_ok_nextFromDeck_h:
  assumes "nextFromDeck_h h a = Return (h1, r)" "heap_ok h"
  shows "heap_ok h1"
proof -
  from assms(1) obtain obj where obj: "states h a = Some obj"
    by (auto simp: nextFromDeck_h_def split: option.splits)
  show ?thesis
  proof (cases "obj_topOfTheDeck obj \<ge> CARDS_IN_DECK")
    case True
    with assms obj show ?thesis
      by (auto simp: nextFromDeck_h_def)
  next
    case False
    with assms(1) obj
    have "nextFromDeck_loop_h [obj_topOfTheDeck obj..<CARDS_IN_DECK] h a = Return (h1, r)"
      by (simp add: nextFromDeck_h_def)
    from heap_ok_nextFromDeck_loop_h [OF this assms(2)] show ?thesis .
  qed
qed

lemma heap_ok_addNewCard_h:
  assumes "addNewCard_h h a = Return (h1, added)" "heap_ok h"
  shows "heap_ok h1"
proof -
  from assms(1) obtain ha r where nd: "nextFromDeck_h h a = Return (ha, r)"
    by (auto simp: addNewCard_h_def split: result.splits)
  note ok1 = heap_ok_nextFromDeck_h [OF nd assms(2)]
  show ?thesis
  proof (cases r)
    case None
    with assms(1) nd have "h1 = ha"
      by (simp add: addNewCard_h_def)
    with ok1 show ?thesis by simp
  next
    case (Some fromdeck)
    with assms(1) nd obtain obj where obj: "states ha a = Some obj"
      by (auto simp: addNewCard_h_def split: option.splits)
    obtain hb q where al:
      "alloc_card ha \<lparr>rotation = 0, position = obj_nextOnBoard obj, card_ptr = Some fromdeck\<rparr> = (hb, q)"
      by (cases "alloc_card ha \<lparr>rotation = 0, position = obj_nextOnBoard obj, card_ptr = Some fromdeck\<rparr>")
    with assms(1) nd Some obj have
      wr: "write_state hb a
             (\<lambda>obj1. obj1\<lparr>obj_cardsOnBoard := (obj_cardsOnBoard obj1)[obj_nextOnBoard obj := Some q],
                           obj_nextOnBoard := (obj_nextOnBoard obj1 + 1) mod 256\<rparr>) = Return h1"
      by (auto simp: addNewCard_h_def split: if_splits result.splits)
    from heap_ok_alloc_card [OF ok1 al] have ok2: "heap_ok hb" "q < next_free hb"
      by simp_all
    show ?thesis
      using ok2(1) wr
    proof (rule heap_ok_write_state)
      fix obj1 :: GameStateObj and p1
      assume "Some p1 \<in> set (obj_cardsOnBoard
         (obj1\<lparr>obj_cardsOnBoard := (obj_cardsOnBoard obj1)[obj_nextOnBoard obj := Some q],
               obj_nextOnBoard := (obj_nextOnBoard obj1 + 1) mod 256\<rparr>))"
      then have "Some p1 \<in> set (obj_cardsOnBoard obj1) \<or> p1 = q"
        using set_update_slot [of p1 "obj_cardsOnBoard obj1" "obj_nextOnBoard obj" q] by simp
      with ok2(2) show "Some p1 \<in> set (obj_cardsOnBoard obj1) \<or> p1 < next_free hb"
        by auto
    qed simp
  qed
qed

lemma heap_ok_rotate_h:
  assumes "rotate_h h c = Return (h1, rotated)" "heap_ok h"
  shows "heap_ok h1"
proof -
  from assms(1) obtain pc where pc: "played h c = Some pc"
    by (auto simp: rotate_h_def split: option.splits)
  show ?thesis
  proof (cases "rotation pc \<ge> 2")
    case True
    with assms pc show ?thesis
      by (auto simp: rotate_h_def)
  next
    case False
    with assms(1) pc
    have wr: "write_card h c (\<lambda>pc1. pc1\<lparr>rotation := (rotation pc1 + 1) mod 256\<rparr>) = Return h1"
      by (auto simp: rotate_h_def split: result.splits)
    from heap_ok_write_card [OF assms(2) wr] show ?thesis .
  qed
qed

lemma heap_ok_replaceCard_h:
  assumes "replaceCard_h h a c = Return (h1, replaced)" "heap_ok h"
  shows "heap_ok h1"
proof -
  from assms(1) obtain ha r where nd: "nextFromDeck_h h a = Return (ha, r)"
    by (auto simp: replaceCard_h_def split: result.splits)
  note ok1 = heap_ok_nextFromDeck_h [OF nd assms(2)]
  show ?thesis
  proof (cases r)
    case None
    with assms(1) nd have "h1 = ha"
      by (simp add: replaceCard_h_def)
    with ok1 show ?thesis by simp
  next
    case (Some fromdeck)
    with assms(1) nd
    have wr: "write_card ha c (\<lambda>pc. pc\<lparr>card_ptr := Some fromdeck, rotation := 0\<rparr>) = Return h1"
      by (auto simp: replaceCard_h_def split: result.splits)
    from heap_ok_write_card [OF ok1 wr] show ?thesis .
  qed
qed

lemma heap_ok_delete_slots_h:
  assumes "delete_slots_h slots h = Return h1" "heap_ok h"
  shows "heap_ok h1"
  using assms
proof (induction slots h rule: delete_slots_h.induct)
  case (1 h)
  then show ?case by simp
next
  case (2 rest h)
  then show ?case by simp
next
  case (3 p rest h)
  from "3.prems"(1) obtain pc where pc: "played h p = Some pc"
    and rest: "delete_slots_h rest (h\<lparr>played := (played h)(p := None)\<rparr>) = Return h1"
    by (auto split: option.splits)
  from "3.prems"(2) have "heap_ok (h\<lparr>played := (played h)(p := None)\<rparr>)"
    unfolding heap_ok_def by (auto split: if_splits)
  with "3.IH" [OF pc rest] show ?case .
qed

lemma heap_ok_delete_h:
  assumes "delete_h h a = Return h1" "heap_ok h"
  shows "heap_ok h1"
proof -
  from assms(1) obtain obj where obj: "states h a = Some obj"
    by (auto simp: delete_h_def split: option.splits)
  with assms(1) obtain ha where
    sl: "delete_slots_h (take CARDS_IN_DECK (obj_cardsOnBoard obj)) h = Return ha"
    and h1: "h1 = ha\<lparr>states := (states ha)(a := None)\<rparr>"
    by (auto simp: delete_h_def split: result.splits)
  from heap_ok_delete_slots_h [OF sl assms(2)] show ?thesis
    unfolding h1 heap_ok_def by (auto split: if_splits)
qed

lemma heap_ok_first_h:
  assumes "first_h h this = Return (h1, r)" "heap_ok h"
  shows "heap_ok h1"
proof -
  from assms obtain ha ns where rp: "replicate_h h this = Return (ha, ns)"
    by (auto simp: first_h_def split: result.splits)
  with assms obtain hb where wr: "write_state ha ns (\<lambda>obj. obj\<lparr>obj_topOfTheDeck := 0\<rparr>) = Return hb"
    by (auto simp: first_h_def split: result.splits)
  with assms rp obtain hc added where ad: "addNewCard_h hb ns = Return (hc, added)"
    by (auto simp: first_h_def split: result.splits)
  from heap_ok_replicate_h [OF rp assms(2)] have "heap_ok ha" .
  then have "heap_ok hb"
    using wr by (rule heap_ok_write_state) simp_all
  with heap_ok_addNewCard_h [OF ad] have ok: "heap_ok hc" .
  show ?thesis
  proof (cases added)
    case True
    with assms rp wr ad have "h1 = hc"
      by (simp add: first_h_def)
    with ok show ?thesis by simp
  next
    case False
    with assms rp wr ad have del: "delete_h hc ns = Return h1"
      by (auto simp: first_h_def split: result.splits)
    from heap_ok_delete_h [OF del ok] show ?thesis .
  qed
qed

lemma heap_ok_next_h:
  assumes "next_h h this = Return (h1, r)" "heap_ok h"
  shows "heap_ok h1"
proof -
  from assms obtain ha ns where rp: "replicate_h h this = Return (ha, ns)"
    by (auto simp: next_h_def split: result.splits)
  with assms obtain c where la: "getLastAdded_h ha ns = Return (Some c)"
    by (auto simp: next_h_def split: result.splits option.splits)
  with assms rp obtain hb rotated where ro: "rotate_h ha c = Return (hb, rotated)"
    by (auto simp: next_h_def split: result.splits)
  from heap_ok_rotate_h [OF ro heap_ok_replicate_h [OF rp assms(2)]] have ok2: "heap_ok hb" .
  show ?thesis
  proof (cases rotated)
    case True
    with assms rp la ro have "h1 = hb"
      by (simp add: next_h_def)
    with ok2 show ?thesis by simp
  next
    case False
    with assms rp la ro obtain hc replaced where re: "replaceCard_h hb ns c = Return (hc, replaced)"
      by (auto simp: next_h_def split: result.splits)
    from heap_ok_replaceCard_h [OF re ok2] have ok3: "heap_ok hc" .
    show ?thesis
    proof (cases replaced)
      case True
      with assms rp la ro re False have "h1 = hc"
        by (simp add: next_h_def)
      with ok3 show ?thesis by simp
    next
      case no: False
      with assms rp la ro re False have del: "delete_h hc ns = Return h1"
        by (auto simp: next_h_def split: result.splits)
      from heap_ok_delete_h [OF del ok3] show ?thesis .
    qed
  qed
qed

lemma read_state_agree:
  assumes "heap_ok h" "agree (next_free h) h h1" "states h a = Some obj"
  shows "states h1 a = states h a \<and> read_state h1 a = read_state h a \<and>
         (\<forall>p. Some p \<in> set (obj_cardsOnBoard obj) \<longrightarrow> played h1 p = played h p)"
proof -
  from assms(1,3) have a: "a < next_free h"
    and ptr: "\<forall>p. Some p \<in> set (obj_cardsOnBoard obj) \<longrightarrow> p < next_free h"
    unfolding heap_ok_def by blast+
  with assms(2) have st: "states h1 a = states h a"
    and pl: "\<forall>p. Some p \<in> set (obj_cardsOnBoard obj) \<longrightarrow> played h1 p = played h p"
    unfolding agree_def by auto
  have "read_slot h1 slot = read_slot h slot" if "slot \<in> set (obj_cardsOnBoard obj)" for slot
  proof (cases slot)
    case None
    then show ?thesis by (simp add: read_slot_def)
  next
    case (Some p)
    with that pl have "played h1 p = played h p" by simp
    with Some show ?thesis by (simp add: read_slot_def)
  qed
  then have "list_all (\<lambda>slot. read_slot h1 slot \<noteq> None) (obj_cardsOnBoard obj) =
             list_all (\<lambda>slot. read_slot h slot \<noteq> None) (obj_cardsOnBoard obj)"
    and "map (\<lambda>slot. the (read_slot h1 slot)) (obj_cardsOnBoard obj) =
         map (\<lambda>slot. the (read_slot h slot)) (obj_cardsOnBoard obj)"
    by (simp_all add: list_all_iff)
  with st assms(3) have "read_state h1 a = read_state h a"
    by (simp add: read_state_def)
  with st pl show ?thesis by simp
qed

subsection \<open>The transitions write only what they allocate\<close>

lemma transition_frame:
  assumes "heap_ok h" "agree (next_free h) h h1"
    "\<forall>ns. r = Some ns \<longrightarrow> owned (next_free h) h1 ns"
  shows "(\<forall>a obj. states h a = Some obj \<longrightarrow>
            states h1 a = Some obj \<and> read_state h1 a = read_state h a \<and>
            (\<forall>p. Some p \<in> set (obj_cardsOnBoard obj) \<longrightarrow> played h1 p = played h p)) \<and>
         (\<forall>a pc. played h a = Some pc \<longrightarrow> played h1 a = Some pc) \<and>
         (\<forall>ns. r = Some ns \<longrightarrow>
            next_free h \<le> ns \<and>
            (\<exists>obj. states h1 ns = Some obj \<and>
                   (\<forall>p. Some p \<in> set (obj_cardsOnBoard obj) \<longrightarrow> next_free h \<le> p)))"
proof (intro conjI allI impI)
  fix a obj assume "states h a = Some obj"
  from read_state_agree [OF assms(1,2) this] this
  show "states h1 a = Some obj" "read_state h1 a = read_state h a"
    by simp_all
next
  fix a obj p assume "states h a = Some obj" "Some p \<in> set (obj_cardsOnBoard obj)"
  with read_state_agree [OF assms(1,2)] show "played h1 p = played h p"
    by blast
next
  fix a pc assume "played h a = Some pc"
  moreover from this assms(1) have "a < next_free h"
    unfolding heap_ok_def by blast
  ultimately show "played h1 a = Some pc"
    using assms(2) unfolding agree_def by simp
next
  fix ns assume "r = Some ns"
  with assms(3) have "owned (next_free h) h1 ns" by simp
  then show "next_free h \<le> ns"
    "\<exists>obj. states h1 ns = Some obj \<and>
           (\<forall>p. Some p \<in> set (obj_cardsOnBoard obj) \<longrightarrow> next_free h \<le> p)"
    unfolding owned_def by blast+
qed

text \<open>
  Claim C8. Let the store be closed and let \<^verbatim>\<open>first\<close> or \<^verbatim>\<open>next\<close> return from a call on the
  board state at address \<open>this\<close>. Then every \<^verbatim>\<open>GameState\<close> object that existed before the call,
  the receiver among them, is the same object afterwards, the placements its slots point to
  are unchanged, and so it reads as the same board state, field by field; every
  \<^verbatim>\<open>PlayedCard\<close> object that existed before is unchanged. The result is either \<^verbatim>\<open>NULL\<close> or a
  \<^verbatim>\<open>GameState\<close> object at an address that did not exist before, all of whose placements lie at
  addresses that did not exist before, so that it shares nothing with any earlier state.
  The store is closed again after the call, so the same holds for every later call: a
  state is written only inside the call that creates it.
\<close>

theorem first_next_frame:
  assumes "heap_ok h" "first_h h this = Return (h1, r) \<or> next_h h this = Return (h1, r)"
  shows "heap_ok h1 \<and>
         (\<forall>a obj. states h a = Some obj \<longrightarrow>
            states h1 a = Some obj \<and> read_state h1 a = read_state h a \<and>
            (\<forall>p. Some p \<in> set (obj_cardsOnBoard obj) \<longrightarrow> played h1 p = played h p)) \<and>
         (\<forall>a pc. played h a = Some pc \<longrightarrow> played h1 a = Some pc) \<and>
         (\<forall>ns. r = Some ns \<longrightarrow>
            next_free h \<le> ns \<and>
            (\<exists>obj. states h1 ns = Some obj \<and>
                   (\<forall>p. Some p \<in> set (obj_cardsOnBoard obj) \<longrightarrow> next_free h \<le> p)))"
  using assms(2)
proof
  assume run: "first_h h this = Return (h1, r)"
  from first_h_frame [OF run] heap_ok_first_h [OF run assms(1)] transition_frame [OF assms(1)]
  show ?thesis by blast
next
  assume run: "next_h h this = Return (h1, r)"
  from next_h_frame [OF run] heap_ok_next_h [OF run assms(1)] transition_frame [OF assms(1)]
  show ?thesis by blast
qed

theorem first_next_frame_witness:
  "\<exists>h1 h2 a b.
     first_h (fst (alloc_state \<lparr>played = Map.empty, states = Map.empty, next_free = 0\<rparr>)) 0
       = Return (h1, Some a) \<and>
     next_h h1 a = Return (h2, Some b) \<and>
     read_state h1 0 = Some empty_state \<and>
     read_state h2 0 = Some empty_state \<and>
     read_state h2 a = read_state h1 a \<and>
     heap_ok h2"
proof -
  let ?h = "fst (alloc_state \<lparr>played = Map.empty, states = Map.empty, next_free = 0\<rparr>)"
  have ok: "heap_ok ?h"
    by (simp add: heap_ok_def alloc_state_def)
  have rd: "read_state ?h 0 = Some empty_state"
    by (simp add: read_state_def alloc_state_def read_slot_def empty_state_def list_all_iff)
  have "case first_h ?h 0 of Return (h1, Some a) \<Rightarrow>
          (case next_h h1 a of Return (h2, Some b) \<Rightarrow> True | _ \<Rightarrow> False) | _ \<Rightarrow> False"
    by code_simp
  then obtain h1 a where run1: "first_h ?h 0 = Return (h1, Some a)"
    and more: "case next_h h1 a of Return (h2, Some b) \<Rightarrow> True | _ \<Rightarrow> False"
    by (cases "first_h ?h 0") (auto split: option.splits)
  from more obtain h2 b where run2: "next_h h1 a = Return (h2, Some b)"
    by (cases "next_h h1 a") (auto split: option.splits)
  from first_next_frame [OF ok, of 0 h1 "Some a"] run1
  have f1: "heap_ok h1" "\<forall>a obj. states ?h a = Some obj \<longrightarrow> read_state h1 a = read_state ?h a"
    "\<exists>obj. states h1 a = Some obj"
    by blast+
  have "\<exists>obj. states ?h 0 = Some obj"
    by (simp add: alloc_state_def)
  with f1(2) rd have rd1: "read_state h1 0 = Some empty_state"
    by auto
  then have "\<exists>obj. states h1 0 = Some obj"
    by (auto simp: read_state_def split: option.splits)
  with first_next_frame [OF f1(1), of a h2 "Some b"] run2 f1(3) rd1
  have "heap_ok h2" "read_state h2 0 = Some empty_state" "read_state h2 a = read_state h1 a"
    by auto
  with run1 run2 rd1 show ?thesis
    by blast
qed

subsection \<open>The transitions on the store are the transitions on boards\<close>

text \<open>
  \<open>read_state\<close> reads the board a state object stands for. The lemmas of this part follow
  each function on the store and show that it returns the object of the board that the
  function on boards returns, and faults where that one faults: \<open>first_h_refines\<close> for
  \<^verbatim>\<open>first\<close> and \<open>next_h_refines\<close> for \<^verbatim>\<open>next\<close>.
\<close>

lemma read_state_Some:
  "read_state h a = Some s \<longleftrightarrow>
     (\<exists>obj. states h a = Some obj \<and>
        (\<forall>p. Some p \<in> set (obj_cardsOnBoard obj) \<longrightarrow> played h p \<noteq> None) \<and>
        s = \<lparr>nextOnBoard = obj_nextOnBoard obj, topOfTheDeck = obj_topOfTheDeck obj,
             cardsOnBoard = map (\<lambda>slot. the (read_slot h slot)) (obj_cardsOnBoard obj)\<rparr>)"
proof -
  have "list_all (\<lambda>slot. read_slot h slot \<noteq> None) slots \<longleftrightarrow>
        (\<forall>p. Some p \<in> set slots \<longrightarrow> played h p \<noteq> None)" for slots
    unfolding list_all_iff
  proof
    assume l: "\<forall>slot \<in> set slots. read_slot h slot \<noteq> None"
    show "\<forall>p. Some p \<in> set slots \<longrightarrow> played h p \<noteq> None"
    proof (intro allI impI)
      fix p assume "Some p \<in> set slots"
      with l have "read_slot h (Some p) \<noteq> None" by blast
      then show "played h p \<noteq> None" by (auto simp: read_slot_def split: option.splits)
    qed
  next
    assume r: "\<forall>p. Some p \<in> set slots \<longrightarrow> played h p \<noteq> None"
    show "\<forall>slot \<in> set slots. read_slot h slot \<noteq> None"
    proof
      fix slot assume "slot \<in> set slots"
      with r show "read_slot h slot \<noteq> None"
        by (cases slot) (auto simp: read_slot_def split: option.splits)
    qed
  qed
  then show ?thesis
    unfolding read_state_def by (cases "states h a") auto
qed

lemma read_slot_simps:
  "read_slot h None = Some None"
  "played h p = Some pc \<Longrightarrow> read_slot h (Some p) = Some (Some pc)"
  by (simp_all add: read_slot_def)

lemma isCardOnBoard_slots_h_read:
  assumes "\<forall>p. Some p \<in> set slots \<longrightarrow> played h p \<noteq> None"
  shows "isCardOnBoard_slots_h slots h val =
     Return (list_ex (\<lambda>slot. case slot of
                                None \<Rightarrow> False
                              | Some pc \<Rightarrow> card_ptr pc \<noteq> None \<and> card_ptr pc = val)
               (map (\<lambda>slot. the (read_slot h slot)) slots))"
  using assms
proof (induction slots h val rule: isCardOnBoard_slots_h.induct)
  case (1 h val)
  show ?case by simp
next
  case (2 rest h val)
  then show ?case by (simp add: read_slot_simps del: not_None_eq)
next
  case (3 p rest h val)
  then obtain pc where pc: "played h p = Some pc"
    by auto
  show ?case
  proof (cases "card_ptr pc \<noteq> None \<and> card_ptr pc = val")
    case True
    with pc show ?thesis
      by (auto simp: read_slot_simps)
  next
    case False
    with "3.IH" [OF pc] "3.prems" have
      "isCardOnBoard_slots_h rest h val =
         Return (list_ex (\<lambda>slot. case slot of
                                None \<Rightarrow> False
                              | Some pc \<Rightarrow> card_ptr pc \<noteq> None \<and> card_ptr pc = val)
               (map (\<lambda>slot. the (read_slot h slot)) rest))"
      by (simp del: not_None_eq)
    with pc False show ?thesis
      by (auto simp: read_slot_simps simp del: not_None_eq)
  qed
qed

lemma isCardOnBoard_h_read:
  assumes "read_state h a = Some s"
  shows "isCardOnBoard_h h a val = Return (isCardOnBoard s val)"
proof -
  from assms obtain obj where obj: "states h a = Some obj"
    "\<forall>p. Some p \<in> set (obj_cardsOnBoard obj) \<longrightarrow> played h p \<noteq> None"
    "cardsOnBoard s = map (\<lambda>slot. the (read_slot h slot)) (obj_cardsOnBoard obj)"
    unfolding read_state_Some by auto
  from obj(2) have "\<forall>p. Some p \<in> set (take CARDS_IN_DECK (obj_cardsOnBoard obj)) \<longrightarrow> played h p \<noteq> None"
    by (meson in_set_takeD)
  from isCardOnBoard_slots_h_read [OF this] obj(1,3) show ?thesis
    by (simp add: isCardOnBoard_h_def isCardOnBoard_def take_map)
qed

lemma write_state_scalar:
  assumes "read_state h a = Some s"
    and "\<And>obj. obj_cardsOnBoard (f obj) = obj_cardsOnBoard obj"
    and "\<And>obj. obj_nextOnBoard obj = nextOnBoard s \<Longrightarrow> obj_topOfTheDeck obj = topOfTheDeck s \<Longrightarrow>
            obj_nextOnBoard (f obj) = nextOnBoard s1 \<and> obj_topOfTheDeck (f obj) = topOfTheDeck s1"
    and "cardsOnBoard s1 = cardsOnBoard s"
  shows "\<exists>h1. write_state h a f = Return h1 \<and> read_state h1 a = Some s1 \<and>
           played h1 = played h \<and> next_free h1 = next_free h \<and>
           map_option obj_cardsOnBoard (states h1 a) = map_option obj_cardsOnBoard (states h a) \<and>
           (sep h a \<longrightarrow> sep h1 a) \<and> (heap_ok h \<longrightarrow> heap_ok h1)"
proof -
  from assms(1) obtain obj where obj: "states h a = Some obj"
    "\<forall>p. Some p \<in> set (obj_cardsOnBoard obj) \<longrightarrow> played h p \<noteq> None"
    "s = \<lparr>nextOnBoard = obj_nextOnBoard obj, topOfTheDeck = obj_topOfTheDeck obj,
          cardsOnBoard = map (\<lambda>slot. the (read_slot h slot)) (obj_cardsOnBoard obj)\<rparr>"
    unfolding read_state_Some by auto
  let ?h1 = "h\<lparr>states := (states h)(a \<mapsto> f obj)\<rparr>"
  have wr: "write_state h a f = Return ?h1"
    using obj(1) by (simp add: write_state_def)
  have slot: "read_slot ?h1 = read_slot h"
    by (rule ext) (simp add: read_slot_def split: option.split)
  have "obj_nextOnBoard obj = nextOnBoard s" "obj_topOfTheDeck obj = topOfTheDeck s"
    unfolding obj(3) by simp_all
  from assms(3) [OF this] have sc: "obj_nextOnBoard (f obj) = nextOnBoard s1"
    "obj_topOfTheDeck (f obj) = topOfTheDeck s1"
    by blast+
  have bd: "cardsOnBoard s1 = map (\<lambda>slot. the (read_slot h slot)) (obj_cardsOnBoard obj)"
    unfolding assms(4) obj(3) by simp
  have "s1 = \<lparr>nextOnBoard = obj_nextOnBoard (f obj), topOfTheDeck = obj_topOfTheDeck (f obj),
             cardsOnBoard = map (\<lambda>slot. the (read_slot ?h1 slot)) (obj_cardsOnBoard (f obj))\<rparr>"
    unfolding sc slot assms(2) bd [symmetric] by simp
  moreover have "states ?h1 a = Some (f obj)"
    by simp
  moreover have "\<forall>p. Some p \<in> set (obj_cardsOnBoard (f obj)) \<longrightarrow> played ?h1 p \<noteq> None"
    using obj(2) by (simp add: assms(2))
  ultimately have "read_state ?h1 a = Some s1"
    unfolding read_state_Some by blast
  moreover have "sep h a \<longrightarrow> sep ?h1 a"
    using obj(1) assms(2) [of obj] by (simp add: sep_def)
  moreover have "heap_ok h \<longrightarrow> heap_ok ?h1"
  proof
    assume "heap_ok h"
    then show "heap_ok ?h1"
      using wr by (rule heap_ok_write_state) (simp_all add: assms(2))
  qed
  moreover have "map_option obj_cardsOnBoard (states ?h1 a) = map_option obj_cardsOnBoard (states h a)"
    using obj(1) by (simp add: assms(2))
  ultimately show ?thesis
    using wr by simp
qed

lemma nextFromDeck_loop_h_refines:
  assumes "read_state h a = Some s"
  shows "\<exists>h1. nextFromDeck_loop_h idx h a = Return (h1, fst (nextFromDeck_loop idx s)) \<and>
           read_state h1 a = Some (snd (nextFromDeck_loop idx s)) \<and>
           played h1 = played h \<and> next_free h1 = next_free h \<and>
           map_option obj_cardsOnBoard (states h1 a) = map_option obj_cardsOnBoard (states h a) \<and>
           (sep h a \<longrightarrow> sep h1 a) \<and> (heap_ok h \<longrightarrow> heap_ok h1)"
proof (induction idx)
  case Nil
  with assms show ?case by simp
next
  case (Cons i rest)
  note rd = isCardOnBoard_h_read [OF assms, of "Some i"]
  show ?case
  proof (cases "isCardOnBoard s (Some i)")
    case True
    with Cons rd show ?thesis by simp
  next
    case False
    from write_state_scalar [OF assms, of "\<lambda>obj. obj\<lparr>obj_topOfTheDeck := i\<rparr>" "s\<lparr>topOfTheDeck := i\<rparr>"]
    obtain h1 where "write_state h a (\<lambda>obj. obj\<lparr>obj_topOfTheDeck := i\<rparr>) = Return h1"
      "read_state h1 a = Some (s\<lparr>topOfTheDeck := i\<rparr>)" "played h1 = played h"
      "next_free h1 = next_free h"
      "map_option obj_cardsOnBoard (states h1 a) = map_option obj_cardsOnBoard (states h a)"
      "sep h a \<longrightarrow> sep h1 a" "heap_ok h \<longrightarrow> heap_ok h1"
      by auto
    with False rd show ?thesis
      by simp
  qed
qed

lemma nextFromDeck_h_refines:
  assumes "read_state h a = Some s"
  shows "\<exists>h1. nextFromDeck_h h a = Return (h1, fst (nextFromDeck s)) \<and>
           read_state h1 a = Some (snd (nextFromDeck s)) \<and>
           played h1 = played h \<and> next_free h1 = next_free h \<and>
           map_option obj_cardsOnBoard (states h1 a) = map_option obj_cardsOnBoard (states h a) \<and>
           (sep h a \<longrightarrow> sep h1 a) \<and> (heap_ok h \<longrightarrow> heap_ok h1)"
proof -
  from assms obtain obj where obj: "states h a = Some obj" "obj_topOfTheDeck obj = topOfTheDeck s"
    unfolding read_state_Some by auto
  show ?thesis
  proof (cases "topOfTheDeck s \<ge> CARDS_IN_DECK")
    case True
    with obj assms show ?thesis
      by (simp add: nextFromDeck_h_def nextFromDeck_def)
  next
    case False
    with obj have "nextFromDeck_h h a = nextFromDeck_loop_h [topOfTheDeck s..<CARDS_IN_DECK] h a"
      "nextFromDeck s = nextFromDeck_loop [topOfTheDeck s..<CARDS_IN_DECK] s"
      by (simp_all add: nextFromDeck_h_def nextFromDeck_def)
    with nextFromDeck_loop_h_refines [OF assms, of "[topOfTheDeck s..<CARDS_IN_DECK]"]
    show ?thesis by simp
  qed
qed

lemma distinct_filter_update:
  assumes "distinct (filter P xs)" "x \<notin> set xs"
  shows "distinct (filter P (xs[i := x]))"
  using assms
proof (induction xs arbitrary: i)
  case Nil
  then show ?case by simp
next
  case (Cons y ys)
  show ?case
  proof (cases i)
    case 0
    with Cons.prems show ?thesis by (auto split: if_splits)
  next
    case (Suc j)
    from Cons.prems have "distinct (filter P ys)" "x \<notin> set ys"
      by (auto split: if_splits)
    from Cons.IH [OF this, of j] Cons.prems set_update_subset_insert [of ys j x]
    show ?thesis
      unfolding Suc by (auto split: if_splits)
  qed
qed

lemma addNewCard_h_refines:
  assumes "read_state h a = Some s" "sep h a" "heap_ok h"
  shows "case addNewCard s of
           Return (added, s1) \<Rightarrow>
             (\<exists>h1. addNewCard_h h a = Return (h1, added) \<and> read_state h1 a = Some s1 \<and>
                   sep h1 a \<and> heap_ok h1)
         | Exit txt \<Rightarrow> False
         | Fault \<Rightarrow> addNewCard_h h a = Fault"
proof -
  obtain r sa where nd: "nextFromDeck s = (r, sa)"
    by (cases "nextFromDeck s")
  with nextFromDeck_h_refines [OF assms(1)] assms(2,3) obtain ha where
    ha: "nextFromDeck_h h a = Return (ha, r)" "read_state ha a = Some sa"
      "sep ha a" "heap_ok ha"
    by auto
  show ?thesis
  proof (cases r)
    case None
    with nd ha show ?thesis
      by (simp add: addNewCard_def addNewCard_h_def)
  next
    case (Some fromdeck)
    from ha(2) obtain obj where obj: "states ha a = Some obj"
      "\<forall>p. Some p \<in> set (obj_cardsOnBoard obj) \<longrightarrow> played ha p \<noteq> None"
      "sa = \<lparr>nextOnBoard = obj_nextOnBoard obj, topOfTheDeck = obj_topOfTheDeck obj,
          cardsOnBoard = map (\<lambda>slot. the (read_slot ha slot)) (obj_cardsOnBoard obj)\<rparr>"
      unfolding read_state_Some by auto
    let ?n = "obj_nextOnBoard obj"
    let ?nc = "\<lparr>rotation = 0, position = ?n, card_ptr = Some fromdeck\<rparr>"
    have nsa: "nextOnBoard sa = ?n"
      unfolding obj(3) by simp
    show ?thesis
    proof (cases "?n < CARDS_IN_DECK")
      case False
      with nd Some ha(1) obj(1) nsa show ?thesis
        by (simp add: addNewCard_def addNewCard_h_def alloc_card_def Let_def)
    next
      case True
      define q where "q = next_free ha"
      define f :: "GameStateObj \<Rightarrow> GameStateObj"
        where "f = (\<lambda>obj1. obj1\<lparr>obj_cardsOnBoard := (obj_cardsOnBoard obj1)[?n := Some q],
                           obj_nextOnBoard := (obj_nextOnBoard obj1 + 1) mod 256\<rparr>)"
      define hb where "hb = ha\<lparr>played := (played ha)(q \<mapsto> ?nc), next_free := next_free ha + 1\<rparr>"
      define h1 where "h1 = hb\<lparr>states := (states hb)(a \<mapsto> f obj)\<rparr>"
      have al: "alloc_card ha ?nc = (hb, q)"
        by (simp add: alloc_card_def hb_def q_def)
      have wr: "write_state hb a f = Return h1"
        using obj(1) by (simp add: write_state_def h1_def hb_def)
      have run: "addNewCard_h h a = Return (h1, True)"
        using ha(1) Some obj(1) True al wr by (simp add: addNewCard_h_def f_def)
      have pl: "played h1 = (played ha)(q \<mapsto> ?nc)" and st: "states h1 a = Some (f obj)"
        by (simp_all add: h1_def hb_def)
      have fo: "obj_cardsOnBoard (f obj) = (obj_cardsOnBoard obj)[?n := Some q]"
        "obj_nextOnBoard (f obj) = (?n + 1) mod 256" "obj_topOfTheDeck (f obj) = obj_topOfTheDeck obj"
        by (simp_all add: f_def)
      from ha(4) obj(1) have old: "\<forall>p. Some p \<in> set (obj_cardsOnBoard obj) \<longrightarrow> p < q"
        and len: "length (obj_cardsOnBoard obj) = CARDS_IN_DECK"
        unfolding heap_ok_def q_def by blast+
      have same: "read_slot h1 slot = read_slot ha slot" if "slot \<in> set (obj_cardsOnBoard obj)" for slot
      proof (cases slot)
        case None
        then show ?thesis by (simp add: read_slot_def)
      next
        case (Some p)
        with that old have "p \<noteq> q" by auto
        with Some show ?thesis by (simp add: read_slot_def pl)
      qed
      have new: "read_slot h1 (Some q) = Some (Some ?nc)"
        by (simp add: read_slot_def pl)
      have "map (\<lambda>slot. the (read_slot h1 slot)) ((obj_cardsOnBoard obj)[?n := Some q]) =
            (map (\<lambda>slot. the (read_slot h1 slot)) (obj_cardsOnBoard obj))[?n := Some ?nc]"
        by (simp only: map_update new option.sel)
      also have "map (\<lambda>slot. the (read_slot h1 slot)) (obj_cardsOnBoard obj) =
                 map (\<lambda>slot. the (read_slot ha slot)) (obj_cardsOnBoard obj)"
        by (rule map_cong [OF refl]) (simp only: same)
      also have "\<dots> = cardsOnBoard sa"
        unfolding obj(3) by simp
      finally have board: "map (\<lambda>slot. the (read_slot h1 slot)) (obj_cardsOnBoard (f obj)) =
            (cardsOnBoard sa)[?n := Some ?nc]"
        unfolding fo .
      have valid: "\<forall>p. Some p \<in> set (obj_cardsOnBoard (f obj)) \<longrightarrow> played h1 p \<noteq> None"
      proof (intro allI impI)
        fix p assume "Some p \<in> set (obj_cardsOnBoard (f obj))"
        then have "Some p \<in> set (obj_cardsOnBoard obj) \<or> p = q"
          unfolding fo by (rule set_update_slot)
        with obj(2) show "played h1 p \<noteq> None"
          by (auto simp: pl)
      qed
      have "read_state h1 a =
         Some \<lparr>nextOnBoard = (?n + 1) mod 256, topOfTheDeck = obj_topOfTheDeck obj,
               cardsOnBoard = (cardsOnBoard sa)[?n := Some ?nc]\<rparr>"
        unfolding read_state_Some using valid board st fo(2,3) by simp
      moreover have "addNewCard s =
         Return (True, \<lparr>nextOnBoard = (?n + 1) mod 256, topOfTheDeck = obj_topOfTheDeck obj,
               cardsOnBoard = (cardsOnBoard sa)[?n := Some ?nc]\<rparr>)"
        using nd Some True nsa by (simp add: addNewCard_def Let_def) (simp add: obj(3))
      moreover have "sep h1 a"
      proof -
        from ha(3) obj(1) have "distinct (filter (\<lambda>slot. slot \<noteq> None) (obj_cardsOnBoard obj))"
          by (simp add: sep_def)
        moreover from old have "Some q \<notin> set (obj_cardsOnBoard obj)"
          by auto
        ultimately have "distinct (filter (\<lambda>slot. slot \<noteq> None) (obj_cardsOnBoard (f obj)))"
          unfolding fo by (rule distinct_filter_update)
        with len st fo(1) show ?thesis
          by (simp add: sep_def)
      qed
      moreover have "heap_ok h1"
        using heap_ok_addNewCard_h [OF run assms(3)] .
      ultimately show ?thesis
        using run by simp
    qed
  qed
qed

lemma copy_board_upt:
  assumes "length src = n" "j \<le> n" "\<forall>i<j. src ! i \<noteq> None"
  shows "copy_board [j..<n] src (take j src @ List.replicate (n - j) None) =
         takeWhile (\<lambda>slot. slot \<noteq> None) src @
         List.replicate (n - length (takeWhile (\<lambda>slot. slot \<noteq> None) src)) None"
  using assms(2,3)
proof (induction "n - j" arbitrary: j)
  case 0
  then have j: "j = n" by simp
  with "0.prems"(2) assms(1) have "\<forall>x \<in> set src. x \<noteq> None"
    by (metis in_set_conv_nth)
  then have tw: "takeWhile (\<lambda>slot. slot \<noteq> None) src = src"
    by (simp add: takeWhile_eq_all_conv del: not_None_eq)
  show ?case
    unfolding tw using j assms(1) by simp
next
  case (Suc k)
  then have lt: "j < n" by simp
  then have upt: "[j..<n] = j # [Suc j..<n]"
    by (rule upt_conv_Cons)
  show ?case
  proof (cases "src ! j")
    case None
    have "takeWhile (\<lambda>slot. slot \<noteq> None) src = take j src"
    proof (rule takeWhile_eq_take_P_nth)
      fix i assume "i < j" "i < length src"
      with Suc.prems(2) show "src ! i \<noteq> None" by blast
    next
      from None show "\<not> src ! j \<noteq> None" by simp
    qed
    with None lt assms(1) show ?thesis
      by (simp add: upt del: not_None_eq)
  next
    case (Some pc)
    from lt assms(1) have tk: "take (Suc j) src = take j src @ [Some pc]"
      using Some by (simp add: take_Suc_conv_app_nth)
    from lt obtain m where m: "n - j = Suc m"
      by (metis Suc_diff_Suc)
    then have m': "n - Suc j = m"
      by simp
    have lj: "length (take j src) = j"
      using lt assms(1) by simp
    have "(take j src @ List.replicate (n - j) None)[j := Some pc] =
          take (Suc j) src @ List.replicate (n - Suc j) None"
      unfolding tk m m' using lj by (simp add: list_update_append)
    moreover have "\<forall>i<Suc j. src ! i \<noteq> None"
      using Suc.prems(2) Some by (auto simp: less_Suc_eq)
    moreover have "k = n - Suc j" "Suc j \<le> n"
      using Suc.hyps(2) lt by simp_all
    ultimately have "copy_board [Suc j..<n] src ((take j src @ List.replicate (n - j) None)[j := Some pc]) =
         takeWhile (\<lambda>slot. slot \<noteq> None) src @
         List.replicate (n - length (takeWhile (\<lambda>slot. slot \<noteq> None) src)) None"
      using Suc.hyps(1) [of "Suc j"] by (simp del: not_None_eq)
    with Some show ?thesis
      by (simp add: upt del: not_None_eq)
  qed
qed

lemma copy_board_replicate_state:
  assumes "length (cardsOnBoard s) = CARDS_IN_DECK"
  shows "\<lparr>nextOnBoard = nextOnBoard s, topOfTheDeck = topOfTheDeck s,
          cardsOnBoard = copy_board [0..<CARDS_IN_DECK] (cardsOnBoard s)
                           (List.replicate CARDS_IN_DECK None)\<rparr> = replicate_state s"
  using copy_board_upt [of "cardsOnBoard s" CARDS_IN_DECK 0] assms
  by (simp add: replicate_state_def Let_def del: not_None_eq)

lemma distinct_filter_nth:
  assumes "distinct (filter P xs)" "i < length xs" "j < length xs" "xs ! i = xs ! j" "P (xs ! i)"
  shows "i = j"
  using assms
proof (induction xs arbitrary: i j)
  case Nil
  then show ?case by simp
next
  case (Cons x xs)
  show ?case
  proof (cases i)
    case i0: 0
    show ?thesis
    proof (cases j)
      case 0
      with i0 show ?thesis by simp
    next
      case (Suc j')
      with i0 Cons.prems have "P x" "x \<in> set xs" "distinct (filter P (x # xs))"
        by (auto simp: nth_mem)
      then show ?thesis by simp
    qed
  next
    case (Suc i')
    show ?thesis
    proof (cases j)
      case 0
      with Suc Cons.prems have "P x" "x \<in> set xs" "distinct (filter P (x # xs))"
        by (auto simp: nth_mem)
      then show ?thesis by simp
    next
      case j: (Suc j')
      from Cons.prems have "distinct (filter P xs)"
        by (auto split: if_splits)
      from Cons.IH [OF this, of i' j'] Cons.prems Suc j show ?thesis
        by simp
    qed
  qed
qed

lemma read_slot_old:
  assumes "played h1 p = played h p"
  shows "read_slot h1 (Some p) = read_slot h (Some p)"
  using assms by (simp add: read_slot_def)

lemma replicate_slots_h_refines:
  assumes "states h this = Some obj" "this \<noteq> ns" "length (obj_cardsOnBoard obj) = CARDS_IN_DECK"
    and "\<forall>p. Some p \<in> set (obj_cardsOnBoard obj) \<longrightarrow> p < next_free h \<and> played h p \<noteq> None"
    and "states h ns = Some nobj" "length (obj_cardsOnBoard nobj) = CARDS_IN_DECK"
    and "\<forall>p. Some p \<in> set (obj_cardsOnBoard nobj) \<longrightarrow> p < next_free h \<and> played h p \<noteq> None"
    and "distinct (filter (\<lambda>slot. slot \<noteq> None) (obj_cardsOnBoard nobj))"
    and "\<forall>i \<in> set idx. i < CARDS_IN_DECK"
  shows "\<exists>h1 nobj1. replicate_slots_h idx this ns h = Return h1 \<and> states h1 ns = Some nobj1 \<and>
     obj_nextOnBoard nobj1 = obj_nextOnBoard nobj \<and>
     obj_topOfTheDeck nobj1 = obj_topOfTheDeck nobj \<and>
     length (obj_cardsOnBoard nobj1) = CARDS_IN_DECK \<and>
     (\<forall>p. Some p \<in> set (obj_cardsOnBoard nobj1) \<longrightarrow> played h1 p \<noteq> None) \<and>
     distinct (filter (\<lambda>slot. slot \<noteq> None) (obj_cardsOnBoard nobj1)) \<and>
     map (\<lambda>slot. the (read_slot h1 slot)) (obj_cardsOnBoard nobj1) =
       copy_board idx (map (\<lambda>slot. the (read_slot h slot)) (obj_cardsOnBoard obj))
                      (map (\<lambda>slot. the (read_slot h slot)) (obj_cardsOnBoard nobj))"
  using assms
proof (induction idx arbitrary: h nobj)
  case Nil
  then show ?case by simp
next
  case (Cons i rest)
  from Cons.prems(9) have i: "i < CARDS_IN_DECK" and rest: "\<forall>i \<in> set rest. i < CARDS_IN_DECK"
    by simp_all
  show ?case
  proof (cases "obj_cardsOnBoard obj ! i")
    case None
    with i Cons.prems(3) have "map (\<lambda>slot. the (read_slot h slot)) (obj_cardsOnBoard obj) ! i = None"
      by (simp add: read_slot_def)
    with None Cons.prems(1,5,6,7,8) show ?thesis
      by simp
  next
    case (Some p)
    with i Cons.prems(3) have "Some p \<in> set (obj_cardsOnBoard obj)"
      by (metis nth_mem)
    with Cons.prems(4) obtain pc where pc: "played h p = Some pc"
      by auto
    define q where "q = next_free h"
    define hb where "hb = h\<lparr>played := (played h)(q \<mapsto> pc), next_free := next_free h + 1\<rparr>"
    define nobj' where "nobj' = nobj\<lparr>obj_cardsOnBoard := (obj_cardsOnBoard nobj)[i := Some q]\<rparr>"
    define hc where "hc = hb\<lparr>states := (states hb)(ns \<mapsto> nobj')\<rparr>"
    have al: "alloc_card h pc = (hb, q)"
      by (simp add: alloc_card_def hb_def q_def)
    have wr: "write_state hb ns (\<lambda>obj1. obj1\<lparr>obj_cardsOnBoard := (obj_cardsOnBoard obj1)[i := Some q]\<rparr>)
        = Return hc"
      using Cons.prems(5) by (simp add: write_state_def hc_def hb_def nobj'_def)
    have step: "replicate_slots_h (i # rest) this ns h = replicate_slots_h rest this ns hc"
      using Cons.prems(1) Some pc al wr by simp
    have pl: "played hc = (played h)(q \<mapsto> pc)" and nf: "next_free hc = Suc q"
      and st: "states hc = (states h)(ns \<mapsto> nobj')"
      by (simp_all add: hc_def hb_def q_def)
    have keep: "played hc p1 = played h p1" if "p1 < q" for p1
      using that by (simp add: pl)
    have c1: "states hc this = Some obj"
      using Cons.prems(1,2) by (simp add: st)
    have c4: "\<forall>p. Some p \<in> set (obj_cardsOnBoard obj) \<longrightarrow> p < next_free hc \<and> played hc p \<noteq> None"
      using Cons.prems(4) keep by (auto simp: nf q_def)
    have c5: "states hc ns = Some nobj'"
      by (simp add: st)
    have c6: "length (obj_cardsOnBoard nobj') = CARDS_IN_DECK"
      using Cons.prems(6) by (simp add: nobj'_def)
    have c7: "\<forall>p. Some p \<in> set (obj_cardsOnBoard nobj') \<longrightarrow> p < next_free hc \<and> played hc p \<noteq> None"
    proof (intro allI impI)
      fix p1 assume "Some p1 \<in> set (obj_cardsOnBoard nobj')"
      then have "Some p1 \<in> set (obj_cardsOnBoard nobj) \<or> p1 = q"
        unfolding nobj'_def using set_update_slot [of p1 "obj_cardsOnBoard nobj" i q] by simp
      with Cons.prems(7) keep [of p1] show "p1 < next_free hc \<and> played hc p1 \<noteq> None"
        by (auto simp: nf q_def pl)
    qed
    have "Some q \<notin> set (obj_cardsOnBoard nobj)"
      using Cons.prems(7) by (auto simp: q_def)
    with Cons.prems(8) have c8: "distinct (filter (\<lambda>slot. slot \<noteq> None) (obj_cardsOnBoard nobj'))"
      unfolding nobj'_def using distinct_filter_update [of "\<lambda>slot. slot \<noteq> None"] by simp
    from Cons.IH [OF c1 Cons.prems(2,3) c4 c5 c6 c7 c8 rest]
    obtain h1 nobj1 where res: "replicate_slots_h rest this ns hc = Return h1"
      "states h1 ns = Some nobj1" "obj_nextOnBoard nobj1 = obj_nextOnBoard nobj'"
      "obj_topOfTheDeck nobj1 = obj_topOfTheDeck nobj'"
      "length (obj_cardsOnBoard nobj1) = CARDS_IN_DECK"
      "\<forall>p. Some p \<in> set (obj_cardsOnBoard nobj1) \<longrightarrow> played h1 p \<noteq> None"
      "distinct (filter (\<lambda>slot. slot \<noteq> None) (obj_cardsOnBoard nobj1))"
      "map (\<lambda>slot. the (read_slot h1 slot)) (obj_cardsOnBoard nobj1) =
         copy_board rest (map (\<lambda>slot. the (read_slot hc slot)) (obj_cardsOnBoard obj))
                      (map (\<lambda>slot. the (read_slot hc slot)) (obj_cardsOnBoard nobj'))"
      by blast
    have old: "read_slot hc slot = read_slot h slot"
      if "slot \<in> set (obj_cardsOnBoard obj) \<or> slot \<in> set (obj_cardsOnBoard nobj)" for slot
    proof (cases slot)
      case None
      then show ?thesis by (simp add: read_slot_def)
    next
      case (Some p1)
      with that Cons.prems(4,7) have "p1 < q"
        by (auto simp: q_def)
      from read_slot_old [OF keep [OF this]] Some show ?thesis
        by simp
    qed
    have src: "map (\<lambda>slot. the (read_slot hc slot)) (obj_cardsOnBoard obj) =
               map (\<lambda>slot. the (read_slot h slot)) (obj_cardsOnBoard obj)"
      by (rule map_cong [OF refl]) (simp add: old)
    have "read_slot hc (Some q) = Some (Some pc)"
      by (simp add: read_slot_def pl)
    then have "map (\<lambda>slot. the (read_slot hc slot)) (obj_cardsOnBoard nobj') =
               (map (\<lambda>slot. the (read_slot hc slot)) (obj_cardsOnBoard nobj))[i := Some pc]"
      by (simp add: nobj'_def map_update)
    also have "map (\<lambda>slot. the (read_slot hc slot)) (obj_cardsOnBoard nobj) =
               map (\<lambda>slot. the (read_slot h slot)) (obj_cardsOnBoard nobj)"
      by (rule map_cong [OF refl]) (simp add: old)
    finally have dst: "map (\<lambda>slot. the (read_slot hc slot)) (obj_cardsOnBoard nobj') =
               (map (\<lambda>slot. the (read_slot h slot)) (obj_cardsOnBoard nobj))[i := Some pc]" .
    have "map (\<lambda>slot. the (read_slot h slot)) (obj_cardsOnBoard obj) ! i = Some pc"
      using i Cons.prems(3) Some pc by (simp add: read_slot_def)
    then have "copy_board (i # rest) (map (\<lambda>slot. the (read_slot h slot)) (obj_cardsOnBoard obj))
                      (map (\<lambda>slot. the (read_slot h slot)) (obj_cardsOnBoard nobj)) =
          copy_board rest (map (\<lambda>slot. the (read_slot hc slot)) (obj_cardsOnBoard obj))
                      (map (\<lambda>slot. the (read_slot hc slot)) (obj_cardsOnBoard nobj'))"
      unfolding src dst by simp
    with res step show ?thesis
      by (simp add: nobj'_def)
  qed
qed

lemma replicate_h_refines:
  assumes "heap_ok h" "read_state h this = Some s"
  shows "\<exists>h1 ns. replicate_h h this = Return (h1, ns) \<and>
           read_state h1 ns = Some (replicate_state s) \<and> sep h1 ns \<and> heap_ok h1"
proof -
  from assms(2) obtain obj where obj: "states h this = Some obj"
    "\<forall>p. Some p \<in> set (obj_cardsOnBoard obj) \<longrightarrow> played h p \<noteq> None"
    "s = \<lparr>nextOnBoard = obj_nextOnBoard obj, topOfTheDeck = obj_topOfTheDeck obj,
          cardsOnBoard = map (\<lambda>slot. the (read_slot h slot)) (obj_cardsOnBoard obj)\<rparr>"
    unfolding read_state_Some by auto
  from assms(1) obj(1) have ok: "this < next_free h" "length (obj_cardsOnBoard obj) = CARDS_IN_DECK"
    "\<forall>p. Some p \<in> set (obj_cardsOnBoard obj) \<longrightarrow> p < next_free h"
    unfolding heap_ok_def by blast+
  define a where "a = next_free h"
  define nobj where "nobj = \<lparr>obj_nextOnBoard = obj_nextOnBoard obj,
     obj_topOfTheDeck = obj_topOfTheDeck obj,
     obj_cardsOnBoard = List.replicate CARDS_IN_DECK (None :: addr option)\<rparr>"
  define ha where "ha = snd (a, fst (alloc_state h))"
  define hb where "hb = ha\<lparr>states := (states ha)(a \<mapsto> nobj)\<rparr>"
  have al: "alloc_state h = (ha, a)"
    by (simp add: alloc_state_def ha_def a_def)
  have wr: "write_state ha a (\<lambda>obj1. obj1\<lparr>obj_nextOnBoard := obj_nextOnBoard obj,
                                   obj_topOfTheDeck := obj_topOfTheDeck obj\<rparr>) = Return hb"
    by (simp add: write_state_def hb_def ha_def alloc_state_def a_def nobj_def)
  have pl: "played hb = played h" and nf: "next_free hb = Suc a"
    and st: "states hb = (states h)(a \<mapsto> nobj)"
    by (simp_all add: hb_def ha_def alloc_state_def a_def)
  have ne: "this \<noteq> a"
    using ok(1) by (simp add: a_def)
  have c1: "states hb this = Some obj"
    using obj(1) ne by (simp add: st)
  have c4: "\<forall>p. Some p \<in> set (obj_cardsOnBoard obj) \<longrightarrow> p < next_free hb \<and> played hb p \<noteq> None"
    using ok(3) obj(2) by (auto simp: nf pl a_def)
  have c5: "states hb a = Some nobj"
    by (simp add: st)
  have c6: "length (obj_cardsOnBoard nobj) = CARDS_IN_DECK"
    by (simp add: nobj_def)
  have c7: "\<forall>p. Some p \<in> set (obj_cardsOnBoard nobj) \<longrightarrow> p < next_free hb \<and> played hb p \<noteq> None"
    by (simp add: nobj_def)
  have c8: "distinct (filter (\<lambda>slot. slot \<noteq> None) (obj_cardsOnBoard nobj))"
    by (simp add: nobj_def)
  have c9: "\<forall>i \<in> set [0..<CARDS_IN_DECK]. i < CARDS_IN_DECK"
    by simp
  from replicate_slots_h_refines [OF c1 ne ok(2) c4 c5 c6 c7 c8 c9]
  obtain h1 nobj1 where res: "replicate_slots_h [0..<CARDS_IN_DECK] this a hb = Return h1"
    "states h1 a = Some nobj1" "obj_nextOnBoard nobj1 = obj_nextOnBoard nobj"
    "obj_topOfTheDeck nobj1 = obj_topOfTheDeck nobj"
    "length (obj_cardsOnBoard nobj1) = CARDS_IN_DECK"
    "\<forall>p. Some p \<in> set (obj_cardsOnBoard nobj1) \<longrightarrow> played h1 p \<noteq> None"
    "distinct (filter (\<lambda>slot. slot \<noteq> None) (obj_cardsOnBoard nobj1))"
    "map (\<lambda>slot. the (read_slot h1 slot)) (obj_cardsOnBoard nobj1) =
       copy_board [0..<CARDS_IN_DECK] (map (\<lambda>slot. the (read_slot hb slot)) (obj_cardsOnBoard obj))
                      (map (\<lambda>slot. the (read_slot hb slot)) (obj_cardsOnBoard nobj))"
    by blast
  have run: "replicate_h h this = Return (h1, a)"
    using obj(1) al wr res(1) by (simp add: replicate_h_def)
  have "read_slot hb = read_slot h"
    unfolding read_slot_def pl ..
  then have src: "map (\<lambda>slot. the (read_slot hb slot)) (obj_cardsOnBoard obj) = cardsOnBoard s"
    unfolding obj(3) by simp
  have dst: "map (\<lambda>slot. the (read_slot hb slot)) (obj_cardsOnBoard nobj) =
             List.replicate CARDS_IN_DECK None"
    by (simp add: nobj_def read_slot_def)
  have len: "length (cardsOnBoard s) = CARDS_IN_DECK"
    unfolding obj(3) using ok(2) by simp
  have "read_state h1 a =
     Some \<lparr>nextOnBoard = nextOnBoard s, topOfTheDeck = topOfTheDeck s,
           cardsOnBoard = copy_board [0..<CARDS_IN_DECK] (cardsOnBoard s)
                            (List.replicate CARDS_IN_DECK None)\<rparr>"
    unfolding read_state_Some using res(2,3,4,6) res(8) [unfolded src dst]
    by (simp add: nobj_def obj(3))
  then have "read_state h1 a = Some (replicate_state s)"
    unfolding copy_board_replicate_state [OF len] .
  moreover have "sep h1 a"
    using res(2,5,7) by (simp add: sep_def)
  moreover have "heap_ok h1"
    using heap_ok_replicate_h [OF run assms(1)] .
  ultimately show ?thesis
    using run by blast
qed

lemma delete_slots_h_returns:
  assumes "distinct (filter (\<lambda>slot. slot \<noteq> None) slots)"
    "\<forall>p. Some p \<in> set slots \<longrightarrow> played h p \<noteq> None"
  shows "\<exists>h1. delete_slots_h slots h = Return h1"
  using assms
proof (induction slots h rule: delete_slots_h.induct)
  case (1 h)
  show ?case by simp
next
  case (2 rest h)
  then show ?case by simp
next
  case (3 p rest h)
  then obtain pc where pc: "played h p = Some pc"
    by auto
  from "3.prems"(1) have d: "distinct (filter (\<lambda>slot. slot \<noteq> None) rest)" "Some p \<notin> set rest"
    by simp_all
  with "3.prems"(2) have "\<forall>p1. Some p1 \<in> set rest \<longrightarrow>
      played (h\<lparr>played := (played h)(p := None)\<rparr>) p1 \<noteq> None"
    by auto
  from "3.IH" [OF pc d(1) this] pc show ?case
    by simp
qed

lemma delete_h_returns:
  assumes "read_state h a = Some s" "sep h a"
  shows "\<exists>h1. delete_h h a = Return h1"
proof -
  from assms(1) obtain obj where obj: "states h a = Some obj"
    "\<forall>p. Some p \<in> set (obj_cardsOnBoard obj) \<longrightarrow> played h p \<noteq> None"
    unfolding read_state_Some by auto
  with assms(2) have "length (obj_cardsOnBoard obj) = CARDS_IN_DECK"
    "distinct (filter (\<lambda>slot. slot \<noteq> None) (obj_cardsOnBoard obj))"
    by (simp_all add: sep_def)
  with delete_slots_h_returns [of "obj_cardsOnBoard obj" h] obj(2)
  obtain h1 where "delete_slots_h (take CARDS_IN_DECK (obj_cardsOnBoard obj)) h = Return h1"
    by auto
  with obj(1) show ?thesis
    by (simp add: delete_h_def)
qed

lemma write_card_slot:
  assumes "read_state h a = Some s" "sep h a" "states h a = Some obj"
    and "i < CARDS_IN_DECK" "obj_cardsOnBoard obj ! i = Some c" "played h c = Some pc"
  shows "\<exists>h1. write_card h c f = Return h1 \<and>
           read_state h1 a = Some (s\<lparr>cardsOnBoard := (cardsOnBoard s)[i := Some (f pc)]\<rparr>) \<and>
           sep h1 a"
proof -
  from assms(1,3) have valid: "\<forall>p. Some p \<in> set (obj_cardsOnBoard obj) \<longrightarrow> played h p \<noteq> None"
    and s: "s = \<lparr>nextOnBoard = obj_nextOnBoard obj, topOfTheDeck = obj_topOfTheDeck obj,
          cardsOnBoard = map (\<lambda>slot. the (read_slot h slot)) (obj_cardsOnBoard obj)\<rparr>"
    unfolding read_state_Some by auto
  from assms(2,3) have len: "length (obj_cardsOnBoard obj) = CARDS_IN_DECK"
    and dist: "distinct (filter (\<lambda>slot. slot \<noteq> None) (obj_cardsOnBoard obj))"
    by (simp_all add: sep_def)
  define h1 where "h1 = h\<lparr>played := (played h)(c \<mapsto> f pc)\<rparr>"
  have wr: "write_card h c f = Return h1"
    using assms(6) by (simp add: write_card_def h1_def)
  have pl: "played h1 = (played h)(c \<mapsto> f pc)" and st: "states h1 = states h"
    by (simp_all add: h1_def)
  have "map (\<lambda>slot. the (read_slot h1 slot)) (obj_cardsOnBoard obj) =
        (map (\<lambda>slot. the (read_slot h slot)) (obj_cardsOnBoard obj))[i := Some (f pc)]"
  proof (rule nth_equalityI)
    show "length (map (\<lambda>slot. the (read_slot h1 slot)) (obj_cardsOnBoard obj)) =
          length ((map (\<lambda>slot. the (read_slot h slot)) (obj_cardsOnBoard obj))[i := Some (f pc)])"
      by simp
  next
    fix j assume "j < length (map (\<lambda>slot. the (read_slot h1 slot)) (obj_cardsOnBoard obj))"
    then have j: "j < length (obj_cardsOnBoard obj)"
      by simp
    show "map (\<lambda>slot. the (read_slot h1 slot)) (obj_cardsOnBoard obj) ! j =
          (map (\<lambda>slot. the (read_slot h slot)) (obj_cardsOnBoard obj))[i := Some (f pc)] ! j"
    proof (cases "j = i")
      case True
      with j assms(5) show ?thesis
        by (simp add: read_slot_def pl)
    next
      case False
      have "read_slot h1 (obj_cardsOnBoard obj ! j) = read_slot h (obj_cardsOnBoard obj ! j)"
      proof (cases "obj_cardsOnBoard obj ! j")
        case None
        then show ?thesis by (simp add: read_slot_def)
      next
        case (Some p)
        have "p \<noteq> c"
        proof
          assume "p = c"
          with Some assms(5) have "obj_cardsOnBoard obj ! j = obj_cardsOnBoard obj ! i"
            by simp
          with distinct_filter_nth [OF dist j _ this] assms(4) len Some False show False
            by simp
        qed
        with Some show ?thesis
          by (simp add: read_slot_def pl)
      qed
      with j False show ?thesis
        by simp
    qed
  qed
  moreover have "\<forall>p. Some p \<in> set (obj_cardsOnBoard obj) \<longrightarrow> played h1 p \<noteq> None"
    using valid by (simp add: pl)
  ultimately have "read_state h1 a = Some (s\<lparr>cardsOnBoard := (cardsOnBoard s)[i := Some (f pc)]\<rparr>)"
    unfolding read_state_Some using assms(3) by (simp add: st s)
  moreover have "sep h1 a"
    using assms(2) by (simp add: sep_def st)
  ultimately show ?thesis
    using wr by blast
qed

lemma first_h_refines:
  assumes "heap_ok h" "read_state h this = Some s"
  shows "case first_state s of
           Return None \<Rightarrow> (\<exists>h1. first_h h this = Return (h1, None))
         | Return (Some t) \<Rightarrow>
             (\<exists>h1 ns. first_h h this = Return (h1, Some ns) \<and> read_state h1 ns = Some t)
         | Exit out \<Rightarrow> False
         | Fault \<Rightarrow> first_h h this = Fault"
proof -
  from replicate_h_refines [OF assms] obtain ha ns where
    rp: "replicate_h h this = Return (ha, ns)" "read_state ha ns = Some (replicate_state s)"
      "sep ha ns" "heap_ok ha"
    by blast
  from write_state_scalar [OF rp(2), of "\<lambda>obj. obj\<lparr>obj_topOfTheDeck := 0\<rparr>"
      "(replicate_state s)\<lparr>topOfTheDeck := 0\<rparr>"] rp(3,4)
  obtain hb where wr: "write_state ha ns (\<lambda>obj. obj\<lparr>obj_topOfTheDeck := 0\<rparr>) = Return hb"
    "read_state hb ns = Some ((replicate_state s)\<lparr>topOfTheDeck := 0\<rparr>)" "sep hb ns" "heap_ok hb"
    by auto
  note ad = addNewCard_h_refines [OF wr(2,3,4)]
  show ?thesis
  proof (cases "addNewCard ((replicate_state s)\<lparr>topOfTheDeck := 0\<rparr>)")
    case (Return res)
    obtain added s1 where res: "res = (added, s1)"
      by (cases res)
    with ad Return obtain hc where hc: "addNewCard_h hb ns = Return (hc, added)"
      "read_state hc ns = Some s1" "sep hc ns"
      by auto
    show ?thesis
    proof (cases added)
      case True
      with Return res rp(1) wr(1) hc show ?thesis
        by (simp add: first_state_def first_h_def Let_def)
    next
      case False
      from delete_h_returns [OF hc(2,3)] obtain hd where "delete_h hc ns = Return hd"
        by blast
      with False Return res rp(1) wr(1) hc show ?thesis
        by (simp add: first_state_def first_h_def Let_def)
    qed
  next
    case (Exit out)
    with ad show ?thesis by simp
  next
    case Fault
    with ad rp(1) wr(1) show ?thesis
      by (simp add: first_state_def first_h_def Let_def)
  qed
qed

lemma nextFromDeck_board: "cardsOnBoard (snd (nextFromDeck s)) = cardsOnBoard s"
proof -
  have "cardsOnBoard (snd (nextFromDeck_loop idx s)) = cardsOnBoard s" for idx
    by (induction idx) simp_all
  then show ?thesis
    by (simp add: nextFromDeck_def)
qed

lemma next_h_refines:
  assumes "heap_ok h" "read_state h this = Some s"
  shows "case next_state s of
           Return None \<Rightarrow> (\<exists>h1. next_h h this = Return (h1, None))
         | Return (Some t) \<Rightarrow>
             (\<exists>h1 ns. next_h h this = Return (h1, Some ns) \<and> read_state h1 ns = Some t)
         | Exit out \<Rightarrow> False
         | Fault \<Rightarrow> next_h h this = Fault"
proof -
  define s0 where "s0 = replicate_state s"
  from replicate_h_refines [OF assms] obtain ha ns where
    rp: "replicate_h h this = Return (ha, ns)" "read_state ha ns = Some s0"
      "sep ha ns" "heap_ok ha"
    unfolding s0_def by blast
  from rp(2) obtain obj where obj: "states ha ns = Some obj"
    "\<forall>p. Some p \<in> set (obj_cardsOnBoard obj) \<longrightarrow> played ha p \<noteq> None"
    "s0 = \<lparr>nextOnBoard = obj_nextOnBoard obj, topOfTheDeck = obj_topOfTheDeck obj,
          cardsOnBoard = map (\<lambda>slot. the (read_slot ha slot)) (obj_cardsOnBoard obj)\<rparr>"
    unfolding read_state_Some by auto
  from rp(3) obj(1) have len: "length (obj_cardsOnBoard obj) = CARDS_IN_DECK"
    by (simp add: sep_def)
  define last where "last = (obj_nextOnBoard obj + 255) mod 256"
  have n0: "nextOnBoard s0 = obj_nextOnBoard obj"
    and b0: "cardsOnBoard s0 = map (\<lambda>slot. the (read_slot ha slot)) (obj_cardsOnBoard obj)"
    unfolding obj(3) by simp_all
  have ns_eq: "next_state s =
     (case getLastAdded s0 of
        Return (slot, Some pc) \<Rightarrow>
         (case rotate_card pc of
            (True, pc1) \<Rightarrow>
             Return (Some (s0\<lparr>cardsOnBoard := (cardsOnBoard s0)[slot := Some pc1]\<rparr>))
          | (False, pc1) \<Rightarrow>
             (case replaceCard (s0\<lparr>cardsOnBoard := (cardsOnBoard s0)[slot := Some pc1]\<rparr>) slot of
                (True, newstate1) \<Rightarrow> Return (Some newstate1)
              | (False, newstate1) \<Rightarrow> Return None))
      | Return (slot, None) \<Rightarrow> Fault
      | Exit out \<Rightarrow> Exit out
      | Fault \<Rightarrow> Fault)"
    unfolding next_state_def s0_def Let_def by (rule refl)
  show ?thesis
  proof (cases "last < CARDS_IN_DECK")
    case False
    then have "getLastAdded s0 = Fault" "getLastAdded_h ha ns = Fault"
      using obj(1) n0 by (simp_all add: getLastAdded_def getLastAdded_h_def last_def Let_def)
    with rp(1) show ?thesis
      by (simp add: ns_eq next_h_def)
  next
    case True
    then have gl: "getLastAdded s0 = Return (last, cardsOnBoard s0 ! last)"
      "getLastAdded_h ha ns = Return (obj_cardsOnBoard obj ! last)"
      using obj(1) n0 by (simp_all add: getLastAdded_def getLastAdded_h_def last_def Let_def)
    show ?thesis
    proof (cases "obj_cardsOnBoard obj ! last")
      case None
      with True len have "cardsOnBoard s0 ! last = None"
        by (simp add: b0 read_slot_def)
      with gl None rp(1) show ?thesis
        by (simp add: ns_eq next_h_def)
    next
      case (Some c)
      with True len have "Some c \<in> set (obj_cardsOnBoard obj)"
        by (metis nth_mem)
      with obj(2) obtain pc where pc: "played ha c = Some pc"
        by auto
      with Some True len have bl: "cardsOnBoard s0 ! last = Some pc"
        by (simp add: b0 read_slot_def)
      show ?thesis
      proof (cases "rotation pc \<ge> 2")
        case False
        define f where "f = (\<lambda>pc1 :: PlayedCard. pc1\<lparr>rotation := (rotation pc1 + 1) mod 256\<rparr>)"
        from False have rc: "rotate_card pc = (True, f pc)"
          by (simp add: rotate_card_def f_def)
        from write_card_slot [OF rp(2,3) obj(1) True Some pc, of f]
        obtain h1 where h1: "write_card ha c f = Return h1"
          "read_state h1 ns = Some (s0\<lparr>cardsOnBoard := (cardsOnBoard s0)[last := Some (f pc)]\<rparr>)"
          by blast
        with False pc have "rotate_h ha c = Return (h1, True)"
          by (simp add: rotate_h_def f_def)
        with rp(1) gl Some bl rc h1(2) show ?thesis
          by (simp add: ns_eq next_h_def)
      next
        case ge: True
        then have rc: "rotate_card pc = (False, pc)" and rh: "rotate_h ha c = Return (ha, False)"
          using pc by (simp_all add: rotate_card_def rotate_h_def)
        from bl have same: "s0\<lparr>cardsOnBoard := (cardsOnBoard s0)[last := Some pc]\<rparr> = s0"
          by (metis list_update_id GameState.surjective GameState.update_convs(3))
        obtain r s1 where nd: "nextFromDeck s0 = (r, s1)"
          by (cases "nextFromDeck s0")
        with nextFromDeck_h_refines [OF rp(2)] rp(3) obtain hb where
          hb: "nextFromDeck_h ha ns = Return (hb, r)" "read_state hb ns = Some s1"
            "played hb = played ha"
            "map_option obj_cardsOnBoard (states hb ns) = map_option obj_cardsOnBoard (states ha ns)"
            "sep hb ns"
          by auto
        show ?thesis
        proof (cases r)
          case None
          from delete_h_returns [OF hb(2,5)] obtain hd where "delete_h hb ns = Return hd"
            by blast
          with None nd hb(1) rp(1) gl Some bl rc rh same show ?thesis
            by (simp add: ns_eq next_h_def replaceCard_def replaceCard_h_def)
        next
          case fd: (Some fromdeck)
          define f where "f = (\<lambda>pc1 :: PlayedCard. pc1\<lparr>card_ptr := Some fromdeck, rotation := 0\<rparr>)"
          from hb(4) obj(1) obtain obj1 where obj1: "states hb ns = Some obj1"
            "obj_cardsOnBoard obj1 = obj_cardsOnBoard obj"
            by auto
          from nextFromDeck_board [of s0] nd have b1: "cardsOnBoard s1 = cardsOnBoard s0"
            by simp
          from write_card_slot [OF hb(2,5) obj1(1) True, of c pc f] Some pc hb(3) obj1(2)
          obtain h1 where h1: "write_card hb c f = Return h1"
            "read_state h1 ns = Some (s1\<lparr>cardsOnBoard := (cardsOnBoard s1)[last := Some (f pc)]\<rparr>)"
            by auto
          have "replaceCard s0 last =
                  (True, s1\<lparr>cardsOnBoard := (cardsOnBoard s1)[last := Some (f pc)]\<rparr>)"
            using nd fd bl b1 by (simp add: replaceCard_def f_def)
          moreover have "replaceCard_h ha ns c = Return (h1, True)"
            using hb(1) fd h1(1) by (simp add: replaceCard_h_def f_def)
          ultimately show ?thesis
            using rp(1) gl Some bl rc rh same h1(2)
            by (simp add: ns_eq next_h_def)
        qed
      qed
    qed
  qed
qed

end
